theory Spec2Isabelle
  imports Complex_Main "HOL-Library.Word" "HOL-Library.Multiset"
begin

unbundle bit_operations_syntax

section \<open>scanbadblocks: the pass execution and statistics engine\<close>

text \<open>
  A shallow embedding of \<^verbatim>\<open>src/scanbadblocks.cpp\<close> (class \<^verbatim>\<open>BlockChecker\<close>).

  \<^item> \<^verbatim>\<open>size_t\<close> is a 64-bit word, \<^verbatim>\<open>uint8_t\<close> an 8-bit word; \<open>+\<close>, \<open>-\<close> and \<open>*\<close> wrap.
  \<^item> A \<^verbatim>\<open>double\<close> is the real number it denotes. Every arithmetic operation on doubles and
    every conversion of a \<^verbatim>\<open>size_t\<close> to \<^verbatim>\<open>double\<close> is the exact result passed through the
    rounding function of the machine, which is a parameter of the model; the rounding
    of IEEE 754 binary64 is \<open>round53\<close> below. Comparisons are exact. Infinities and NaN
    are not represented: the source divides only by numbers it has tested to be positive,
    or by the size of the run, and overflow is left out.
  \<^item> A thrown \<^verbatim>\<open>std::runtime_error\<close> and every operation without defined behaviour in
    C++ (integer division by zero, \<^verbatim>\<open>*opt\<close> on an empty \<^verbatim>\<open>std::optional\<close>,
    \<^verbatim>\<open>v[i]\<close> beyond \<^verbatim>\<open>v.size()\<close>) is a value \<open>Inl e\<close> of the result type.
  \<^item> The operating system (clock, \<^verbatim>\<open>open\<close>, \<^verbatim>\<open>read\<close>, \<^verbatim>\<open>write\<close>, \<^verbatim>\<open>close\<close>, file size,
    output file creation) is a record of functions over a world state \<open>'w\<close>.
  \<^item> \<^verbatim>\<open>std::cout\<close> is a list of structured output events.
  \<^item> Memory allocation (\<^verbatim>\<open>std::vector\<close> construction and \<^verbatim>\<open>resize\<close>) is taken to succeed.
\<close>

subsection \<open>Basic types\<close>

type_synonym byte = "8 word"
type_synonym size_t = "64 word"

datatype error =
    CannotDetermineSize          \<comment> \<open>\<^verbatim>\<open>runtime_error("Cannot determine size!")\<close>\<close>
  | OpenForReadingFailed string  \<comment> \<open>\<^verbatim>\<open>runtime_error("Error opening file ... for reading")\<close>\<close>
  | OpenForWritingFailed string  \<comment> \<open>\<^verbatim>\<open>runtime_error("Error opening file ... for writing")\<close>\<close>
  | OutfileOpenFailed string     \<comment> \<open>\<^verbatim>\<open>runtime_error("Error while opening file ... for writing!")\<close>\<close>
  | DivisionByZero               \<comment> \<open>undefined behaviour: integer division or remainder by zero\<close>
  | EmptyOptionalAccess          \<comment> \<open>undefined behaviour: \<^verbatim>\<open>*pattern\<close> on \<^verbatim>\<open>std::nullopt\<close>\<close>
  | IndexOutOfRange              \<comment> \<open>undefined behaviour: \<^verbatim>\<open>v[i]\<close> with \<^verbatim>\<open>i >= v.size()\<close>\<close>

definition bindE :: "error + 'a \<Rightarrow> ('a \<Rightarrow> error + 'b) \<Rightarrow> error + 'b" where
  "bindE m f = (case m of Inl e \<Rightarrow> Inl e | Inr x \<Rightarrow> f x)"

text \<open>\<^verbatim>\<open>*opt\<close> of a \<^verbatim>\<open>std::optional\<close>.\<close>

definition deref :: "'a option \<Rightarrow> error + 'a" where
  "deref opt = (case opt of None \<Rightarrow> Inl EmptyOptionalAccess | Some v \<Rightarrow> Inr v)"

text \<open>\<^verbatim>\<open>v[i]\<close> of a \<^verbatim>\<open>std::vector\<close>, read.\<close>

definition vec_at :: "'a list \<Rightarrow> size_t \<Rightarrow> error + 'a" where
  "vec_at v i = (if unat i < length v then Inr (v ! unat i) else Inl IndexOutOfRange)"

text \<open>\<^verbatim>\<open>v[i]\<close> of a \<^verbatim>\<open>std::vector\<close>, updated in place by \<open>f\<close>.\<close>

definition vec_modify :: "'a list \<Rightarrow> size_t \<Rightarrow> ('a \<Rightarrow> 'a) \<Rightarrow> error + 'a list" where
  "vec_modify v i f =
     (if unat i < length v then Inr (v[unat i := f (v ! unat i)]) else Inl IndexOutOfRange)"

subsection \<open>Pattern generator (\<^verbatim>\<open>initBlock\<close>, lines 293-303)\<close>

text \<open>
  \<^verbatim>\<open>pattern ^ ((blockIndex >> s) & 0xff)\<close>: the byte is promoted to \<^verbatim>\<open>size_t\<close>, combined,
  and truncated to \<^verbatim>\<open>uint8_t\<close> by the assignment.
\<close>

definition indexByte :: "byte \<Rightarrow> size_t \<Rightarrow> nat \<Rightarrow> byte" where
  "indexByte pattern blockIndex s = ucast ((ucast pattern :: size_t) XOR (drop_bit s blockIndex AND 0xff))"

definition initBlock :: "byte list \<Rightarrow> size_t \<Rightarrow> byte \<Rightarrow> error + byte list" where
  "initBlock buffer blockIndex pattern =
     (if length buffer < 8 then Inl IndexOutOfRange
      else Inr (buffer
        [0 := indexByte pattern blockIndex 0,
         1 := indexByte pattern blockIndex 8,
         2 := indexByte pattern blockIndex 16,
         3 := indexByte pattern blockIndex 24,
         4 := indexByte pattern blockIndex 32,
         5 := indexByte pattern blockIndex 40,
         6 := indexByte pattern blockIndex 48,
         7 := indexByte pattern blockIndex 56]))"

subsection \<open>Block geometry (lines 36 and 101-105)\<close>

text \<open>\<^verbatim>\<open>numBlocks = (sizeBytes + blockSize - 1) / blockSize\<close> in \<^verbatim>\<open>size_t\<close> arithmetic.\<close>

definition calcNumBlocks :: "size_t \<Rightarrow> size_t \<Rightarrow> error + size_t" where
  "calcNumBlocks sizeBytes blockSize =
     (if blockSize = 0 then Inl DivisionByZero
      else Inr ((sizeBytes + blockSize - 1) div blockSize))"

text \<open>
  The access length of a block (lines 101-105). With \<open>blockSize = 0\<close> the product is 0,
  the comparison is false and the remainder is not evaluated.
\<close>

definition accessSize :: "size_t \<Rightarrow> size_t \<Rightarrow> size_t \<Rightarrow> size_t" where
  "accessSize sizeBytes blockSize blockIndex =
     (if (blockIndex + 1) * blockSize > sizeBytes then sizeBytes mod blockSize else blockSize)"

text \<open>The access lengths of the blocks \<open>0, \<dots>, numBlocks - 1\<close>, in the order the passes use them.\<close>

definition accessLengths :: "size_t \<Rightarrow> size_t \<Rightarrow> size_t \<Rightarrow> nat list" where
  "accessLengths sizeBytes blockSize numBlocks =
     map (\<lambda>k. unat (accessSize sizeBytes blockSize (of_nat k))) [0..<unat numBlocks]"

subsection \<open>Floating-point arithmetic\<close>

text \<open>
  The four operations on \<^verbatim>\<open>double\<close> and the conversion from \<^verbatim>\<open>size_t\<close>, each rounding its
  exact result with \<open>rnd\<close>.
\<close>

definition fadd :: "(real \<Rightarrow> real) \<Rightarrow> real \<Rightarrow> real \<Rightarrow> real" where
  "fadd rnd a b = rnd (a + b)"

definition fsub :: "(real \<Rightarrow> real) \<Rightarrow> real \<Rightarrow> real \<Rightarrow> real" where
  "fsub rnd a b = rnd (a - b)"

definition fmul :: "(real \<Rightarrow> real) \<Rightarrow> real \<Rightarrow> real \<Rightarrow> real" where
  "fmul rnd a b = rnd (a * b)"

definition fdiv :: "(real \<Rightarrow> real) \<Rightarrow> real \<Rightarrow> real \<Rightarrow> real" where
  "fdiv rnd a b = rnd (a / b)"

definition toDouble :: "(real \<Rightarrow> real) \<Rightarrow> size_t \<Rightarrow> real" where
  "toDouble rnd n = rnd (real (unat n))"

text \<open>
  The rounding of IEEE 754 binary64 for results in the normal range: to the nearest
  number with a significand of 53 bits, a tie to the one whose significand is even. With
  \<open>2\<^sup>E \<le> |x| < 2\<^sup>E\<^sup>+\<^sup>1\<close> these numbers are the multiples of \<open>2\<^sup>E\<^sup>-\<^sup>5\<^sup>2\<close>. The range of the
  exponent is not bounded here: overflow and subnormal numbers are left out.
\<close>

definition roundEven :: "real \<Rightarrow> int" where
  "roundEven x =
     (let f = \<lfloor>x\<rfloor>; d = x - of_int f
      in if d < 1 / 2 then f else if 1 / 2 < d then f + 1 else if even f then f else f + 1)"

definition round53 :: "real \<Rightarrow> real" where
  "round53 x =
     (if x = 0 then 0
      else let e = \<lfloor>log 2 \<bar>x\<bar>\<rfloor> - 52 in of_int (roundEven (x / 2 powi e)) * 2 powi e)"

subsection \<open>Measurements (\<^verbatim>\<open>struct BlockStats\<close>, lines 314-320)\<close>

text \<open>\<^verbatim>\<open>MB = 1024.0 * 1024.0\<close> is exact in binary floating point.\<close>

definition MB :: real where
  "MB = 1024 * 1024"

record BlockStats =
  time :: real
  errors :: size_t
  bytes :: size_t

definition emptyStats :: BlockStats where
  "emptyStats = \<lparr>time = 0, errors = 0, bytes = 0\<rparr>"

text \<open>Line 319: \<^verbatim>\<open>bytes / time / MB\<close> converts \<open>bytes\<close> and divides twice, rounding three times.\<close>

definition getRateMB :: "(real \<Rightarrow> real) \<Rightarrow> BlockStats \<Rightarrow> real" where
  "getRateMB rnd r =
     (if time r > 0 then fdiv rnd (fdiv rnd (toDouble rnd (bytes r)) (time r)) MB else 0)"

subsection \<open>Output events\<close>

record progress =
  pr_prefix :: "(string \<times> size_t \<times> size_t \<times> byte) option"
    \<comment> \<open>direction, \<open>passIndex + 1\<close>, \<open>numPasses\<close>, pattern byte; only with more than one pass\<close>
  pr_blockIndex :: size_t
  pr_numBlocks :: size_t
  pr_doneMB :: real
  pr_passMB :: real
  pr_percent :: real
  pr_remainingSec :: real
  pr_readMBs :: real
  pr_writeMBs :: real

datatype out_event =
    SizeInfo string size_t size_t size_t
      \<comment> \<open>constructor banner: file name, \<open>sizeBytes\<close>, \<open>numBlocks\<close>, \<open>blockSize\<close>\<close>
  | DataError byte byte size_t
      \<comment> \<open>"Data error: Expected e and got g (block b)"\<close>
  | ProgressLine progress
  | PassSummary size_t size_t string size_t real real real real
      \<comment> \<open>\<open>passIndex + 1\<close>, \<open>numPasses\<close>, direction, errors, min, avg, med, max\<close>
  | SlowWarning real size_t
      \<comment> \<open>"Warning: Number of blocks slower than p% of median: n"\<close>
  | CsvFile string "(size_t \<times> real \<times> size_t) list"
      \<comment> \<open>the per-block file: its name and its lines \<open>index,time,errors\<close>\<close>
  | TransferRates real real
  | ResultError size_t size_t size_t
  | ResultOK

subsection \<open>The operating system and the machine\<close>

record 'w Sys =
  getTimeSec :: "'w \<Rightarrow> real \<times> 'w"
  getFileSize :: "string \<Rightarrow> 'w \<Rightarrow> size_t"
  sys_open :: "string \<Rightarrow> bool \<Rightarrow> 'w \<Rightarrow> int \<times> 'w"
    \<comment> \<open>the flag is \<open>True\<close> for \<^verbatim>\<open>O_WRONLY\<close>, \<open>False\<close> for \<^verbatim>\<open>O_RDONLY\<close>; the result is the descriptor\<close>
  sys_read :: "int \<Rightarrow> size_t \<Rightarrow> 'w \<Rightarrow> (int \<times> byte list) \<times> 'w"
    \<comment> \<open>descriptor, count; the result of the call and the bytes delivered\<close>
  sys_write :: "int \<Rightarrow> byte list \<Rightarrow> 'w \<Rightarrow> int \<times> 'w"
  sys_close :: "int \<Rightarrow> 'w \<Rightarrow> 'w"
  ofstream_ok :: "string \<Rightarrow> 'w \<Rightarrow> bool"
  fp_round :: "real \<Rightarrow> real"
    \<comment> \<open>the rounding of an exact result to \<^verbatim>\<open>double\<close>\<close>

text \<open>The bytes a \<^verbatim>\<open>read\<close> of \<open>cnt\<close> bytes leaves in the buffer: at most \<open>cnt\<close> are replaced.\<close>

definition storeRead :: "byte list \<Rightarrow> nat \<Rightarrow> byte list \<Rightarrow> byte list" where
  "storeRead buffer cnt data =
     (let d = take (min cnt (length buffer)) data in d @ drop (length d) buffer)"

subsection \<open>The checker's state (lines 305-330)\<close>

record 'w BlockChecker =
  filename :: string
  outfile :: string
  blockSize :: size_t
  sizeBytes :: size_t
  numBlocks :: size_t
  patterns :: "byte list"
  blockStats :: "BlockStats list"
  totalWrite :: BlockStats
  totalRead :: BlockStats
  lastProgressTime :: real
  passIndex :: size_t
  readPassesRemaining :: size_t
  writePassesRemaining :: size_t
  numPasses :: size_t
  world :: 'w                  \<comment> \<open>the state of the operating system\<close>
  cout :: "out_event list"     \<comment> \<open>everything printed so far\<close>

definition print :: "out_event \<Rightarrow> 'w BlockChecker \<Rightarrow> 'w BlockChecker" where
  "print e c = c\<lparr>cout := cout c @ [e]\<rparr>"

subsection \<open>Loops\<close>

text \<open>\<^verbatim>\<open>for (size_t i = i0; i < n; i++) body\<close>, leaving at the first error.\<close>

function forE :: "size_t \<Rightarrow> size_t \<Rightarrow> (size_t \<Rightarrow> 's \<Rightarrow> error + 's) \<Rightarrow> 's \<Rightarrow> error + 's" where
  "forE i n body s =
     (if i < n
      then (case body i s of Inl e \<Rightarrow> Inl e | Inr s' \<Rightarrow> forE (i + 1) n body s')
      else Inr s)"
  by pat_completeness auto
termination
proof (relation "measure (\<lambda>(i, n, body, s). unat n - unat i)")
  show "wf (measure (\<lambda>(i, n, body, s). unat n - unat i))"
    by simp
next
  fix i n :: size_t and body :: "size_t \<Rightarrow> 's \<Rightarrow> error + 's" and s x2 :: 's
  assume "i < n"
  then have "unat i < unat n"
    by (simp add: word_less_nat_alt)
  moreover have "unat n < 2 ^ 64"
    using unsigned_less [of n] by simp
  ultimately have "unat i + unat (1 :: size_t) < 2 ^ LENGTH(64)"
    by simp
  then have "unat (i + 1) = unat i + 1"
    using unat_add_lem [of i 1] by simp
  with \<open>unat i < unat n\<close> show "((i + 1, n, body, x2), (i, n, body, s)) \<in> measure (\<lambda>(i, n, body, s). unat n - unat i)"
    by simp
qed

declare forE.simps [simp del]

subsection \<open>Throughput (lines 231-247)\<close>

definition getReadBytesPerSecond :: "(real \<Rightarrow> real) \<Rightarrow> 'w BlockChecker \<Rightarrow> real" where
  "getReadBytesPerSecond rnd c =
     (if time (totalRead c) > 0 \<and> toDouble rnd (bytes (totalRead c)) > 0
      then fdiv rnd (toDouble rnd (bytes (totalRead c))) (time (totalRead c)) else 0)"

definition getWriteBytesPerSecond :: "(real \<Rightarrow> real) \<Rightarrow> 'w BlockChecker \<Rightarrow> real" where
  "getWriteBytesPerSecond rnd c =
     (if time (totalWrite c) > 0 \<and> toDouble rnd (bytes (totalWrite c)) > 0
      then fdiv rnd (toDouble rnd (bytes (totalWrite c))) (time (totalWrite c)) else 0)"

subsection \<open>Progress reporter (\<^verbatim>\<open>printProgress\<close>, lines 190-229)\<close>

text \<open>
  Lines 198-206: the prefix of the line and the bytes to read and to write in the whole run.
\<close>

definition progressTotals ::
  "(real \<Rightarrow> real) \<Rightarrow> 'w BlockChecker
     \<Rightarrow> error + (string \<times> size_t \<times> size_t \<times> byte) option \<times> real \<times> real" where
  "progressTotals rnd c =
     (let totalBytesOnePass = fmul rnd (toDouble rnd (numBlocks c)) (toDouble rnd (blockSize c)) in
      if numPasses c > 1
      then bindE (vec_at (patterns c) (passIndex c)) (\<lambda>pat.
             Inr (Some (if passIndex c AND 1 \<noteq> 0 then ''read'' else ''write'',
                        passIndex c + 1, numPasses c, pat),
                  fmul rnd (toDouble rnd (numPasses c div 2)) totalBytesOnePass,
                  fmul rnd (toDouble rnd (numPasses c div 2)) totalBytesOnePass))
      else Inr (None, totalBytesOnePass, 0))"

text \<open>Lines 208-227: the numbers of the line.\<close>

definition progressLine ::
  "(real \<Rightarrow> real) \<Rightarrow> (string \<times> size_t \<times> size_t \<times> byte) option \<Rightarrow> real \<Rightarrow> real \<Rightarrow> size_t
     \<Rightarrow> 'w BlockChecker \<Rightarrow> progress" where
  "progressLine rnd prefix totalReadBytes totalWriteBytes blockIndex c =
     (let totalBytesOnePass = fmul rnd (toDouble rnd (numBlocks c)) (toDouble rnd (blockSize c));
          doneBytes = fmul rnd (toDouble rnd blockIndex) (toDouble rnd (blockSize c));
          percent =
            fmul rnd
              (fdiv rnd (fadd rnd (fmul rnd (toDouble rnd (passIndex c)) totalBytesOnePass) doneBytes)
                        (fadd rnd totalReadBytes totalWriteBytes))
              100;
          readRate = getReadBytesPerSecond rnd c;
          writeRate = getWriteBytesPerSecond rnd c;
          remainingRead =
            (if readRate > 0
             then fadd rnd 0 (fdiv rnd (fsub rnd totalReadBytes (toDouble rnd (bytes (totalRead c)))) readRate)
             else if writeRate > 0
             then fadd rnd 0 (fdiv rnd (fsub rnd totalReadBytes (toDouble rnd (bytes (totalRead c)))) writeRate)
             else 0);
          remainingSec =
            (if writeRate > 0
             then fadd rnd remainingRead
                    (fdiv rnd (fsub rnd totalWriteBytes (toDouble rnd (bytes (totalWrite c)))) writeRate)
             else remainingRead)
      in \<lparr>pr_prefix = prefix, pr_blockIndex = blockIndex, pr_numBlocks = numBlocks c,
          pr_doneMB = fdiv rnd doneBytes MB, pr_passMB = fdiv rnd totalBytesOnePass MB,
          pr_percent = percent, pr_remainingSec = remainingSec,
          pr_readMBs = fdiv rnd readRate MB,
          pr_writeMBs = fdiv rnd writeRate MB\<rparr>)"

definition printProgress :: "'w Sys \<Rightarrow> size_t \<Rightarrow> 'w BlockChecker \<Rightarrow> error + 'w BlockChecker" where
  "printProgress sys blockIndex c0 =
     (let (now, w) = getTimeSec sys (world c0);
          c = c0\<lparr>world := w\<rparr>;
          elapsed = fsub (fp_round sys) now (lastProgressTime c)
      in if elapsed < 0.5 then Inr c
         else bindE (progressTotals (fp_round sys) c) (\<lambda>(prefix, totalReadBytes, totalWriteBytes).
                Inr ((print (ProgressLine (progressLine (fp_round sys) prefix totalReadBytes
                                             totalWriteBytes blockIndex c)) c)
                       \<lparr>lastProgressTime := now\<rparr>)))"

subsection \<open>Statistics aggregator (\<^verbatim>\<open>printPassStats\<close>, lines 249-291)\<close>

text \<open>\<^verbatim>\<open>std::format("{}", n)\<close> of an unsigned number.\<close>

fun decimal :: "nat \<Rightarrow> string" where
  "decimal n = (if n < 10 then [char_of (48 + n)] else decimal (n div 10) @ [char_of (48 + n mod 10)])"

declare decimal.simps [simp del]

definition outfilename :: "string \<Rightarrow> string \<Rightarrow> size_t \<Rightarrow> size_t \<Rightarrow> string" where
  "outfilename prefix readWrite pass sz =
     prefix @ ''_'' @ readWrite @ decimal (unat pass) @ ''_'' @ decimal (unat sz) @ ''.txt''"

definition csvLines :: "size_t \<Rightarrow> BlockStats list \<Rightarrow> error + (size_t \<times> real \<times> size_t) list" where
  "csvLines n v =
     forE 0 n (\<lambda>i ls. bindE (vec_at v i) (\<lambda>r. Inr (ls @ [(i, time r, errors r)]))) []"

text \<open>
  Line 285: \<^verbatim>\<open>for (; num < numBlocks && blockStats[num].getRateMB() < limit; num++);\<close>
\<close>

function countSlow ::
  "(real \<Rightarrow> real) \<Rightarrow> BlockStats list \<Rightarrow> size_t \<Rightarrow> real \<Rightarrow> size_t \<Rightarrow> error + size_t" where
  "countSlow rnd v n limit num =
     (if num < n
      then (case vec_at v num of
              Inl e \<Rightarrow> Inl e
            | Inr r \<Rightarrow> if getRateMB rnd r < limit then countSlow rnd v n limit (num + 1) else Inr num)
      else Inr num)"
  by pat_completeness auto
termination
proof (relation "measure (\<lambda>(rnd, v, n, limit, num). unat n - unat num)")
  show "wf (measure (\<lambda>(rnd, v, n, limit, num). unat n - unat num))"
    by simp
next
  fix rnd :: "real \<Rightarrow> real" and v :: "BlockStats list" and n num :: size_t and limit :: real
    and x2 :: BlockStats
  assume "num < n"
  then have "unat num < unat n"
    by (simp add: word_less_nat_alt)
  moreover have "unat n < 2 ^ 64"
    using unsigned_less [of n] by simp
  ultimately have "unat num + unat (1 :: size_t) < 2 ^ LENGTH(64)"
    by simp
  then have "unat (num + 1) = unat num + 1"
    using unat_add_lem [of num 1] by simp
  with \<open>unat num < unat n\<close>
  show "((rnd, v, n, limit, num + 1), (rnd, v, n, limit, num))
          \<in> measure (\<lambda>(rnd, v, n, limit, num). unat n - unat num)"
    by simp
qed

declare countSlow.simps [simp del]

text \<open>
  Lines 281-290: one independent scan per percentage, against the limit
  \<^verbatim>\<open>med * percent / 100.0\<close>, a product and a quotient of doubles.
\<close>

primrec warnSlow ::
  "(real \<Rightarrow> real) \<Rightarrow> real list \<Rightarrow> real \<Rightarrow> 'w BlockChecker \<Rightarrow> error + 'w BlockChecker" where
  "warnSlow rnd [] med c = Inr c"
| "warnSlow rnd (percent # ps) med c =
     bindE (countSlow rnd (blockStats c) (numBlocks c) (fdiv rnd (fmul rnd med percent) 100) 0) (\<lambda>num.
       warnSlow rnd ps med (if num \<noteq> 0 then print (SlowWarning percent num) c else c))"

text \<open>
  Line 274: \<^verbatim>\<open>std::accumulate(..., 0, ...)\<close> has an \<^verbatim>\<open>int\<close> accumulator: every partial sum
  is converted to \<^verbatim>\<open>int\<close>, and the result back to \<^verbatim>\<open>size_t\<close>.
\<close>

definition sumErrors :: "BlockStats list \<Rightarrow> size_t" where
  "sumErrors v =
     scast (foldl (\<lambda>(acc :: 32 word) r. ucast ((scast acc :: size_t) + errors r)) 0 v)"

text \<open>
  \<^verbatim>\<open>std::sort\<close> by rate is \<open>sort_key (getRateMB rnd)\<close>. \<^verbatim>\<open>std::sort\<close> may order records of
  equal rate differently; the rate found at each index is the same for every such order
  (lemma \<open>sorted_rates_unique\<close> below).
\<close>

definition writeOutfile :: "'w Sys \<Rightarrow> string \<Rightarrow> 'w BlockChecker \<Rightarrow> error + 'w BlockChecker" where
  \<comment> \<open>lines 253-266\<close>
  "writeOutfile sys readWrite c =
     (if outfile c \<noteq> []
      then
        let name = outfilename (outfile c) readWrite (passIndex c) (sizeBytes c) in
        if \<not> ofstream_ok sys name (world c) then Inl (OutfileOpenFailed name)
        else bindE (csvLines (numBlocks c) (blockStats c)) (\<lambda>ls. Inr (print (CsvFile name ls) c))
      else Inr c)"

definition collectStats ::
  "(real \<Rightarrow> real) \<Rightarrow> string \<Rightarrow> 'w BlockChecker \<Rightarrow> error + 'w BlockChecker" where
  \<comment> \<open>lines 269-290\<close>
  "collectStats rnd readWrite c0 =
     (let c = c0\<lparr>blockStats := sort_key (getRateMB rnd) (blockStats c0)\<rparr> in
      bindE (vec_at (blockStats c) 0) (\<lambda>r0.
      bindE (vec_at (blockStats c) (numBlocks c - 1)) (\<lambda>r1.
      bindE (vec_at (blockStats c) (numBlocks c div 2)) (\<lambda>r2.
        let min = getRateMB rnd r0;
            max = getRateMB rnd r1;
            med = getRateMB rnd r2;
            totalTime = foldl (\<lambda>acc r. fadd rnd acc (time r)) 0 (blockStats c);
            errs = sumErrors (blockStats c);
            avg = (if totalTime > 0
                   then fdiv rnd (fdiv rnd (toDouble rnd (sizeBytes c)) totalTime) MB else 0)
        in warnSlow rnd [50, 20, 10, 5] med
             (print (PassSummary (passIndex c + 1) (numPasses c) readWrite errs min avg med max) c)))))"

definition printPassStats :: "'w Sys \<Rightarrow> bool \<Rightarrow> 'w BlockChecker \<Rightarrow> error + 'w BlockChecker" where
  "printPassStats sys read c =
     (let readWrite = (if read then ''read'' else ''write'') in
      bindE (writeOutfile sys readWrite c) (collectStats (fp_round sys) readWrite))"

subsection \<open>Pass executor (\<^verbatim>\<open>readPass\<close>, lines 82-140; \<^verbatim>\<open>writePass\<close>, lines 142-188)\<close>

text \<open>Lines 111-112 and 172-173 (and 123-124): one more error for the block and for the direction.\<close>

definition countError :: "bool \<Rightarrow> size_t \<Rightarrow> 'w BlockChecker \<Rightarrow> error + 'w BlockChecker" where
  "countError read blockIndex c =
     bindE (vec_modify (blockStats c) blockIndex (\<lambda>r. r\<lparr>errors := errors r + 1\<rparr>)) (\<lambda>bs.
       Inr (if read
            then c\<lparr>blockStats := bs, totalRead := (totalRead c)\<lparr>errors := errors (totalRead c) + 1\<rparr>\<rparr>
            else c\<lparr>blockStats := bs, totalWrite := (totalWrite c)\<lparr>errors := errors (totalWrite c) + 1\<rparr>\<rparr>))"

text \<open>Lines 129-132 and 177-180: time and bytes for the block and for the direction.\<close>

definition addTransfer ::
  "(real \<Rightarrow> real) \<Rightarrow> bool \<Rightarrow> size_t \<Rightarrow> real \<Rightarrow> size_t \<Rightarrow> 'w BlockChecker
     \<Rightarrow> error + 'w BlockChecker" where
  "addTransfer rnd read blockIndex elapsed accessSz c =
     bindE (vec_modify (blockStats c) blockIndex
              (\<lambda>r. r\<lparr>time := fadd rnd (time r) elapsed, bytes := bytes r + accessSz\<rparr>)) (\<lambda>bs.
       Inr (if read
            then c\<lparr>blockStats := bs,
                   totalRead := (totalRead c)\<lparr>time := fadd rnd (time (totalRead c)) elapsed,
                                              bytes := bytes (totalRead c) + accessSz\<rparr>\<rparr>
            else c\<lparr>blockStats := bs,
                   totalWrite := (totalWrite c)\<lparr>time := fadd rnd (time (totalWrite c)) elapsed,
                                                bytes := bytes (totalWrite c) + accessSz\<rparr>\<rparr>))"

text \<open>
  Lines 118-127: the first index \<open>i < blockSize\<close> with \<^verbatim>\<open>buffer[i] != expected[i]\<close>, as the
  pair (expected, got).
\<close>

function firstMismatch :: "size_t \<Rightarrow> size_t \<Rightarrow> byte list \<Rightarrow> byte list \<Rightarrow> error + (byte \<times> byte) option" where
  "firstMismatch i n buffer expected =
     (if i < n
      then (case vec_at buffer i of
              Inl e \<Rightarrow> Inl e
            | Inr b \<Rightarrow>
                (case vec_at expected i of
                   Inl e \<Rightarrow> Inl e
                 | Inr x \<Rightarrow> if b \<noteq> x then Inr (Some (x, b))
                            else firstMismatch (i + 1) n buffer expected))
      else Inr None)"
  by pat_completeness auto
termination
proof (relation "measure (\<lambda>(i, n, buffer, expected). unat n - unat i)")
  show "wf (measure (\<lambda>(i, n, buffer, expected). unat n - unat i))"
    by simp
next
  fix i n :: size_t and buffer expected :: "byte list" and x2 x2a :: byte
  assume "i < n"
  then have "unat i < unat n"
    by (simp add: word_less_nat_alt)
  moreover have "unat n < 2 ^ 64"
    using unsigned_less [of n] by simp
  ultimately have "unat i + unat (1 :: size_t) < 2 ^ LENGTH(64)"
    by simp
  then have "unat (i + 1) = unat i + 1"
    using unat_add_lem [of i 1] by simp
  with \<open>unat i < unat n\<close>
  show "((i + 1, n, buffer, expected), (i, n, buffer, expected))
          \<in> measure (\<lambda>(i, n, buffer, expected). unat n - unat i)"
    by simp
qed

declare firstMismatch.simps [simp del]

definition verifyBlock :: "size_t \<Rightarrow> byte list \<Rightarrow> byte list \<Rightarrow> 'w BlockChecker \<Rightarrow> error + 'w BlockChecker" where
  "verifyBlock blockIndex buffer expected c =
     bindE (firstMismatch 0 (blockSize c) buffer expected) (\<lambda>m.
       case m of
         None \<Rightarrow> Inr c
       | Some (x, b) \<Rightarrow> countError True blockIndex (print (DataError x b blockIndex) c))"

text \<open>
  Lines 109-133: what a read pass records for a block, given the result of \<^verbatim>\<open>read\<close>, the
  buffer after the call, the expected block and the time measured.
\<close>

definition recordRead ::
  "(real \<Rightarrow> real) \<Rightarrow> byte option \<Rightarrow> int \<Rightarrow> size_t \<Rightarrow> byte list \<Rightarrow> byte list \<Rightarrow> real \<Rightarrow> size_t
     \<Rightarrow> 'w BlockChecker \<Rightarrow> error + 'w BlockChecker" where
  "recordRead rnd pattern result blockIndex buffer expected elapsed accessSz c =
     (if result < 0 then countError True blockIndex c
      else bindE (if pattern \<noteq> None then verifyBlock blockIndex buffer expected c else Inr c)
             (addTransfer rnd True blockIndex elapsed accessSz))"

text \<open>Lines 170-181: what a write pass records for a block, given the result of \<^verbatim>\<open>write\<close>.\<close>

definition recordWrite ::
  "(real \<Rightarrow> real) \<Rightarrow> int \<Rightarrow> size_t \<Rightarrow> real \<Rightarrow> size_t \<Rightarrow> 'w BlockChecker
     \<Rightarrow> error + 'w BlockChecker" where
  "recordWrite rnd result blockIndex elapsed accessSz c =
     (if result < 0 then countError False blockIndex c
      else addTransfer rnd False blockIndex elapsed accessSz c)"

text \<open>
  Lines 101-108: the timed \<^verbatim>\<open>read\<close> of a block. The result of the call, the time
  measured, the access length, the buffer after the call and the world after it.
\<close>

definition readCall ::
  "'w Sys \<Rightarrow> int \<Rightarrow> size_t \<Rightarrow> byte list \<Rightarrow> 'w BlockChecker
     \<Rightarrow> int \<times> real \<times> size_t \<times> byte list \<times> 'w" where
  "readCall sys fd blockIndex buffer0 c =
     (let accessSz = accessSize (sizeBytes c) (blockSize c) blockIndex;
          (startTime, w1) = getTimeSec sys (world c);
          ((result, data), w2) = sys_read sys fd accessSz w1;
          (endTime, w3) = getTimeSec sys w2
      in (result, fsub (fp_round sys) endTime startTime, accessSz,
          storeRead buffer0 (unat accessSz) data, w3))"

text \<open>
  Lines 161-169: the timed \<^verbatim>\<open>write\<close> of a block. The result of the call, the time
  measured, the access length and the world after it.
\<close>

definition writeCall ::
  "'w Sys \<Rightarrow> int \<Rightarrow> size_t \<Rightarrow> byte list \<Rightarrow> 'w BlockChecker \<Rightarrow> int \<times> real \<times> size_t \<times> 'w" where
  "writeCall sys fd blockIndex buffer c =
     (let accessSz = accessSize (sizeBytes c) (blockSize c) blockIndex;
          (startTime, w1) = getTimeSec sys (world c);
          (result, w2) = sys_write sys fd (take (unat accessSz) buffer) w1;
          (endTime, w3) = getTimeSec sys w2
      in (result, fsub (fp_round sys) endTime startTime, accessSz, w3))"

text \<open>The body of the loop of \<^verbatim>\<open>readPass\<close> (lines 100-134); the state carries both buffers.\<close>

definition readBlock ::
  "'w Sys \<Rightarrow> int \<Rightarrow> byte option \<Rightarrow> size_t \<Rightarrow> 'w BlockChecker \<times> byte list \<times> byte list
     \<Rightarrow> error + 'w BlockChecker \<times> byte list \<times> byte list" where
  "readBlock sys fd pattern blockIndex st =
     (case st of (c, buffer0, expected0) \<Rightarrow>
      bindE (deref pattern) (\<lambda>pv.
      bindE (initBlock expected0 blockIndex pv) (\<lambda>expected.
        case readCall sys fd blockIndex buffer0 c of (result, elapsed, accessSz, buffer, w) \<Rightarrow>
          bindE (recordRead (fp_round sys) pattern result blockIndex buffer expected elapsed accessSz
                   (c\<lparr>world := w\<rparr>))
            (\<lambda>c2. bindE (printProgress sys blockIndex c2) (\<lambda>c3. Inr (c3, buffer, expected))))))"

definition readPass :: "'w Sys \<Rightarrow> byte option \<Rightarrow> 'w BlockChecker \<Rightarrow> error + 'w BlockChecker" where
  "readPass sys pattern c0 =
     (let c1 = c0\<lparr>readPassesRemaining := readPassesRemaining c0 - 1,
                  blockStats := replicate (unat (numBlocks c0)) emptyStats\<rparr>;
          (t0, w1) = getTimeSec sys (world c1);
          (fd, w2) = sys_open sys (filename c1) False w1;
          c2 = c1\<lparr>lastProgressTime := t0, world := w2\<rparr>
      in if fd < 0 then Inl (OpenForReadingFailed (filename c2))
         else
           let buffer = replicate (unat (blockSize c2)) (0 :: byte) in
           bindE (deref pattern) (\<lambda>pv.
           let expected = replicate (unat (blockSize c2)) pv in
           bindE (forE 0 (numBlocks c2) (readBlock sys fd pattern) (c2, buffer, expected)) (\<lambda>(c3, b, x).
           bindE (printPassStats sys True (c3\<lparr>world := sys_close sys fd (world c3)\<rparr>)) (\<lambda>c4.
             Inr (c4\<lparr>passIndex := passIndex c4 + 1\<rparr>)))))"

text \<open>The body of the loop of \<^verbatim>\<open>writePass\<close> (lines 160-182); the state carries the buffer.\<close>

definition writeBlock ::
  "'w Sys \<Rightarrow> int \<Rightarrow> byte \<Rightarrow> size_t \<Rightarrow> 'w BlockChecker \<times> byte list
     \<Rightarrow> error + 'w BlockChecker \<times> byte list" where
  "writeBlock sys fd pattern blockIndex st =
     (case st of (c, buffer0) \<Rightarrow>
      bindE (initBlock buffer0 blockIndex pattern) (\<lambda>buffer.
        case writeCall sys fd blockIndex buffer c of (result, elapsed, accessSz, w) \<Rightarrow>
          bindE (recordWrite (fp_round sys) result blockIndex elapsed accessSz (c\<lparr>world := w\<rparr>))
            (\<lambda>c2. bindE (printProgress sys blockIndex c2) (\<lambda>c3. Inr (c3, buffer)))))"

definition writePass :: "'w Sys \<Rightarrow> byte \<Rightarrow> 'w BlockChecker \<Rightarrow> error + 'w BlockChecker" where
  "writePass sys pattern c0 =
     (let c1 = c0\<lparr>writePassesRemaining := writePassesRemaining c0 - 1,
                  blockStats := replicate (unat (numBlocks c0)) emptyStats\<rparr>;
          (t0, w1) = getTimeSec sys (world c1);
          (fd, w2) = sys_open sys (filename c1) True w1;
          c2 = c1\<lparr>lastProgressTime := t0, world := w2\<rparr>
      in if fd < 0 then Inl (OpenForWritingFailed (filename c2))
         else
           let buffer = replicate (unat (blockSize c2)) pattern in
           bindE (forE 0 (numBlocks c2) (writeBlock sys fd pattern) (c2, buffer)) (\<lambda>(c3, b).
           bindE (printPassStats sys False (c3\<lparr>world := sys_close sys fd (world c3)\<rparr>)) (\<lambda>c4.
             Inr (c4\<lparr>passIndex := passIndex c4 + 1\<rparr>))))"

subsection \<open>Session controller (lines 29-78 and \<^verbatim>\<open>main\<close>, lines 370-394)\<close>

text \<open>
  The constructor. The parsed block size and pattern list are parameters: their parsers
  (\<^verbatim>\<open>ut1::strToU64\<close>, \<^verbatim>\<open>ut1::csvIntegersToVector\<close>) are not part of the source file.
\<close>

definition newBlockChecker ::
  "'w Sys \<Rightarrow> string \<Rightarrow> size_t \<Rightarrow> byte list \<Rightarrow> string \<Rightarrow> 'w \<Rightarrow> error + 'w BlockChecker" where
  "newBlockChecker sys file bsize pats ofile w =
     (let fsize = getFileSize sys file w in
      bindE (calcNumBlocks fsize bsize) (\<lambda>nblocks.
        let c = \<lparr>filename = file, outfile = ofile, blockSize = bsize,
                 sizeBytes = fsize, numBlocks = nblocks, patterns = pats,
                 blockStats = replicate (unat nblocks) emptyStats,
                 totalWrite = emptyStats, totalRead = emptyStats,
                 lastProgressTime = 0, passIndex = 0,
                 readPassesRemaining = 0, writePassesRemaining = 0, numPasses = 0,
                 world = w,
                 cout = [SizeInfo file fsize nblocks bsize]\<rparr>
        in if fsize = 0 then Inl CannotDetermineSize else Inr c))"

definition checkReadOnly :: "'w Sys \<Rightarrow> 'w BlockChecker \<Rightarrow> error + 'w BlockChecker" where
  "checkReadOnly sys c =
     readPass sys None (c\<lparr>numPasses := 1, readPassesRemaining := 1, writePassesRemaining := 0\<rparr>)"

definition checkWriteRead :: "'w Sys \<Rightarrow> 'w BlockChecker \<Rightarrow> error + 'w BlockChecker" where
  "checkWriteRead sys c0 =
     (let n = (of_nat (length (patterns c0)) :: size_t) * 2;
          c = c0\<lparr>numPasses := n, readPassesRemaining := n div 2, writePassesRemaining := n div 2\<rparr>
      in forE 0 (of_nat (length (patterns c)))
           (\<lambda>i c. bindE (vec_at (patterns c) i) (\<lambda>p.
                     bindE (writePass sys p c) (readPass sys (Some p)))) c)"

definition printResult :: "(real \<Rightarrow> real) \<Rightarrow> 'w BlockChecker \<Rightarrow> 'w BlockChecker" where
  "printResult rnd c =
     (let c1 = print (TransferRates (fdiv rnd (getReadBytesPerSecond rnd c) MB)
                                    (fdiv rnd (getWriteBytesPerSecond rnd c) MB)) c in
      if errors (totalRead c1) + errors (totalWrite c1) > 0
      then print (ResultError (errors (totalRead c1) + errors (totalWrite c1))
                              (errors (totalRead c1)) (errors (totalWrite c1))) c1
      else print ResultOK c1)"

text \<open>
  Lines 370-394 of \<^verbatim>\<open>main\<close>, after the command line is parsed and the overwrite is confirmed.
\<close>

definition run ::
  "'w Sys \<Rightarrow> string \<Rightarrow> size_t \<Rightarrow> byte list \<Rightarrow> string \<Rightarrow> bool \<Rightarrow> 'w \<Rightarrow> error + 'w BlockChecker" where
  "run sys file bsize pats ofile overwrite w =
     bindE (newBlockChecker sys file bsize pats ofile w) (\<lambda>c.
     bindE (if overwrite then checkWriteRead sys c else checkReadOnly sys c) (\<lambda>c'.
       Inr (printResult (fp_round sys) c')))"

subsection \<open>A simulated device\<close>

text \<open>
  A concrete operating system for running the checker: one file of fixed size with a
  file offset, and a clock that advances by \<open>tick\<close> at every reading. A call transfers
  at most \<open>maxio\<close> bytes (a short read or write when that is less than the request), and
  fails with \<open>-1\<close> when the file offset is one of the offsets \<open>bad\<close>. With \<open>bad = []\<close>
  and \<open>maxio\<close> at least the block size the device is healthy: every call succeeds and
  a read returns the bytes written before. Its arithmetic is exact: in the runs
  evaluated below the clock steps are 0 and 1, so the times the program adds, subtracts
  and compares are small whole numbers, which rounding leaves as they are.
\<close>

record sim =
  disk :: "byte list"
  pos :: nat
  clock :: real

definition simSys :: "real \<Rightarrow> nat \<Rightarrow> nat list \<Rightarrow> sim Sys" where
  "simSys tick maxio bad =
     \<lparr>getTimeSec = (\<lambda>w. (clock w, w\<lparr>clock := clock w + tick\<rparr>)),
      getFileSize = (\<lambda>name w. of_nat (length (disk w))),
      sys_open = (\<lambda>name wr w. (3, w\<lparr>pos := 0\<rparr>)),
      sys_read = (\<lambda>fd cnt w.
        if pos w \<in> set bad then ((- 1, []), w)
        else let d = take (min (unat cnt) maxio) (drop (pos w) (disk w))
             in ((int (length d), d), w\<lparr>pos := pos w + length d\<rparr>)),
      sys_write = (\<lambda>fd data w.
        if pos w \<in> set bad then (- 1, w)
        else let d = take (min maxio (length (disk w) - pos w)) data
             in (int (length d),
                 w\<lparr>disk := take (pos w) (disk w) @ d @ drop (pos w + length d) (disk w),
                   pos := pos w + length d\<rparr>)),
      sys_close = (\<lambda>fd w. w),
      ofstream_ok = (\<lambda>name w. True),
      fp_round = (\<lambda>x. x)\<rparr>"

definition simDevice :: "nat \<Rightarrow> sim" where
  "simDevice n = \<lparr>disk = replicate n 0, pos = 0, clock = 0\<rparr>"

text \<open>A system on a machine with IEEE 754 arithmetic.\<close>

definition ieee :: "'w Sys \<Rightarrow> 'w Sys" where
  "ieee sys = sys\<lparr>fp_round := round53\<rparr>"

subsection \<open>Reading the output\<close>

text \<open>The prefixes of the progress lines, and the data-error diagnostics, in the order printed.\<close>

definition progressPrefixes :: "out_event list \<Rightarrow> (string \<times> size_t \<times> size_t \<times> byte) option list" where
  "progressPrefixes es = concat (map (\<lambda>e. case e of ProgressLine p \<Rightarrow> [pr_prefix p] | _ \<Rightarrow> []) es)"

definition dataErrors :: "out_event list \<Rightarrow> (byte \<times> byte \<times> size_t) list" where
  "dataErrors es = concat (map (\<lambda>e. case e of DataError x b i \<Rightarrow> [(x, b, i)] | _ \<Rightarrow> []) es)"

text \<open>The (min, med, max) of the pass summaries and the slow-block warnings, in the order printed.\<close>

definition passSummaries :: "out_event list \<Rightarrow> (real \<times> real \<times> real) list" where
  "passSummaries es =
     concat (map (\<lambda>e. case e of PassSummary i n d errs mn avg med mx \<Rightarrow> [(mn, med, mx)] | _ \<Rightarrow> []) es)"

definition slowWarnings :: "out_event list \<Rightarrow> (real \<times> size_t) list" where
  "slowWarnings es = concat (map (\<lambda>e. case e of SlowWarning p n \<Rightarrow> [(p, n)] | _ \<Rightarrow> []) es)"

text \<open>
  The warnings for the percentages \<open>ps\<close>, given the median and the rates of all blocks:
  for each percentage on its own, the number of rates strictly below the double
  \<^verbatim>\<open>med * p / 100.0\<close>, if there is any.
\<close>

definition slowLines ::
  "(real \<Rightarrow> real) \<Rightarrow> real list \<Rightarrow> real \<Rightarrow> real list \<Rightarrow> (real \<times> size_t) list" where
  "slowLines rnd ps med rates =
     concat (map (\<lambda>p. let k = length (filter (\<lambda>r. r < fdiv rnd (fmul rnd med p) 100) rates)
                        in if 0 < k then [(p, of_nat k)] else []) ps)"

text \<open>A checker state holding the given per-block records, as a pass leaves it for the aggregator.\<close>

definition statsChecker :: "size_t \<Rightarrow> BlockStats list \<Rightarrow> sim BlockChecker" where
  "statsChecker bsize stats =
     \<lparr>filename = ''dev'', outfile = ''scanbadblocks'', blockSize = bsize,
      sizeBytes = bsize * of_nat (length stats), numBlocks = of_nat (length stats), patterns = [0],
      blockStats = stats, totalWrite = emptyStats, totalRead = emptyStats,
      lastProgressTime = 0, passIndex = 0,
      readPassesRemaining = 0, writePassesRemaining = 0, numPasses = 1,
      world = simDevice (unat bsize * length stats), cout = []\<rparr>"

text \<open>Five per-block records with the rates 30, 10, 50, 20 and 40 MB/s.\<close>

definition exampleStats :: "BlockStats list" where
  "exampleStats =
     [\<lparr>time = 1, errors = 0, bytes = 31457280\<rparr>,
      \<lparr>time = 1, errors = 0, bytes = 10485760\<rparr>,
      \<lparr>time = 1, errors = 0, bytes = 52428800\<rparr>,
      \<lparr>time = 1, errors = 0, bytes = 20971520\<rparr>,
      \<lparr>time = 1, errors = 0, bytes = 41943040\<rparr>]"

text \<open>Four blocks of 4 MiB, read in 11, 11, 55 and 11 seconds.\<close>

definition slowStats :: "BlockStats list" where
  "slowStats =
     [\<lparr>time = 11, errors = 0, bytes = 4194304\<rparr>,
      \<lparr>time = 11, errors = 0, bytes = 4194304\<rparr>,
      \<lparr>time = 55, errors = 0, bytes = 4194304\<rparr>,
      \<lparr>time = 11, errors = 0, bytes = 4194304\<rparr>]"

subsection \<open>The calls of a pass\<close>

text \<open>
  Any system, observed: it behaves as \<open>sys\<close> does, and its world carries, next to the
  world of \<open>sys\<close>, the results of the \<^verbatim>\<open>read\<close> and \<^verbatim>\<open>write\<close> calls made so far, in the
  order of the calls. The checker sees the same results, times and bytes as on \<open>sys\<close>.
\<close>

definition logged :: "'w Sys \<Rightarrow> ('w \<times> int list) Sys" where
  "logged sys =
     \<lparr>getTimeSec = (\<lambda>(w, l). let (t, w') = getTimeSec sys w in (t, (w', l))),
      getFileSize = (\<lambda>name (w, l). getFileSize sys name w),
      sys_open = (\<lambda>name wr (w, l). let (fd, w') = sys_open sys name wr w in (fd, (w', l))),
      sys_read = (\<lambda>fd cnt (w, l).
        let ((result, data), w') = sys_read sys fd cnt w in ((result, data), (w', l @ [result]))),
      sys_write = (\<lambda>fd data (w, l).
        let (result, w') = sys_write sys fd data w in (result, (w', l @ [result]))),
      sys_close = (\<lambda>fd (w, l). (sys_close sys fd w, l)),
      ofstream_ok = (\<lambda>name (w, l). ofstream_ok sys name w),
      fp_round = fp_round sys\<rparr>"

text \<open>The results of the calls made so far.\<close>

definition callLog :: "('w \<times> int list) BlockChecker \<Rightarrow> int list" where
  "callLog c = snd (world c)"

text \<open>
  The checker on the observed system and the checker on \<open>sys\<close> itself: \<open>observe\<close> starts
  a checker with an empty list of results, \<open>forget\<close> drops the list. A pass on \<open>logged sys\<close>
  is, once the list is dropped, the pass on \<open>sys\<close> (lemmas \<open>writePass_sim\<close> and
  \<open>readPass_sim\<close> below).
\<close>

definition observe :: "'w BlockChecker \<Rightarrow> ('w \<times> int list) BlockChecker" where
  "observe c =
     \<lparr>filename = filename c, outfile = outfile c, blockSize = blockSize c,
      sizeBytes = sizeBytes c, numBlocks = numBlocks c, patterns = patterns c,
      blockStats = blockStats c, totalWrite = totalWrite c, totalRead = totalRead c,
      lastProgressTime = lastProgressTime c, passIndex = passIndex c,
      readPassesRemaining = readPassesRemaining c,
      writePassesRemaining = writePassesRemaining c, numPasses = numPasses c,
      world = (world c, []), cout = cout c\<rparr>"

definition forget :: "('w \<times> int list) BlockChecker \<Rightarrow> 'w BlockChecker" where
  "forget c =
     \<lparr>filename = filename c, outfile = outfile c, blockSize = blockSize c,
      sizeBytes = sizeBytes c, numBlocks = numBlocks c, patterns = patterns c,
      blockStats = blockStats c, totalWrite = totalWrite c, totalRead = totalRead c,
      lastProgressTime = lastProgressTime c, passIndex = passIndex c,
      readPassesRemaining = readPassesRemaining c,
      writePassesRemaining = writePassesRemaining c, numPasses = numPasses c,
      world = fst (world c), cout = cout c\<rparr>"

text \<open>
  The results of the \<^verbatim>\<open>write\<close> calls of a write pass from the state \<open>c\<close>, and of the \<^verbatim>\<open>read\<close>
  calls of a read pass, in the order of the calls (of a pass that does not complete, none).
\<close>

definition writeCalls :: "'w Sys \<Rightarrow> byte \<Rightarrow> 'w BlockChecker \<Rightarrow> int list" where
  "writeCalls sys p c =
     (case writePass (logged sys) p (observe c) of Inl e \<Rightarrow> [] | Inr d \<Rightarrow> callLog d)"

definition readCalls :: "'w Sys \<Rightarrow> byte option \<Rightarrow> 'w BlockChecker \<Rightarrow> int list" where
  "readCalls sys pattern c =
     (case readPass (logged sys) pattern (observe c) of Inl e \<Rightarrow> [] | Inr d \<Rightarrow> callLog d)"

text \<open>The bytes recorded for all blocks of a pass, added up.\<close>

definition totalBytes :: "BlockStats list \<Rightarrow> nat" where
  "totalBytes v = sum_list (map (\<lambda>r. unat (bytes r)) v)"

subsection \<open>Reading the result of a pass\<close>

text \<open>
  Of a pass that returned: the device size, the block size, the bytes recorded for all
  blocks and the write errors of the run so far.
\<close>

definition passBytes :: "error + 'w BlockChecker \<Rightarrow> error + nat \<times> nat \<times> nat \<times> size_t" where
  "passBytes r =
     map_sum id (\<lambda>c. (unat (sizeBytes c), unat (blockSize c), totalBytes (blockStats c),
                       errors (totalWrite c))) r"

text \<open>
  Of a pass that returned: the block records, the read errors of the run so far and the
  data-error diagnostics printed.
\<close>

definition passRecords ::
  "error + 'w BlockChecker \<Rightarrow> error + BlockStats list \<times> size_t \<times> (byte \<times> byte \<times> size_t) list" where
  "passRecords r = map_sum id (\<lambda>c. (blockStats c, errors (totalRead c), dataErrors (cout c))) r"

subsection \<open>Conditions for a pass to run\<close>

text \<open>The set-up of the checker, which no block of a pass changes.\<close>

definition sameSetup :: "'w BlockChecker \<Rightarrow> 'w BlockChecker \<Rightarrow> bool" where
  "sameSetup c c' \<longleftrightarrow>
     filename c' = filename c \<and> outfile c' = outfile c \<and> blockSize c' = blockSize c
     \<and> sizeBytes c' = sizeBytes c \<and> numBlocks c' = numBlocks c \<and> patterns c' = patterns c
     \<and> passIndex c' = passIndex c \<and> numPasses c' = numPasses c"

text \<open>
  The progress line can be printed (line 203): with more than one pass, \<^verbatim>\<open>patterns[passIndex]\<close>
  is within the vector.
\<close>

definition progressSafe :: "'w BlockChecker \<Rightarrow> bool" where
  "progressSafe c \<longleftrightarrow> numPasses c \<le> 1 \<or> unat (passIndex c) < length (patterns c)"

text \<open>The \<^verbatim>\<open>open\<close> of the pass (lines 89 and 150) returns a descriptor.\<close>

definition opens :: "'w Sys \<Rightarrow> bool \<Rightarrow> 'w BlockChecker \<Rightarrow> bool" where
  "opens sys wr c \<longleftrightarrow> 0 \<le> fst (sys_open sys (filename c) wr (snd (getTimeSec sys (world c))))"

text \<open>The per-block file of the pass, if one is asked for, can be created (line 256).\<close>

definition outfileOK :: "'w Sys \<Rightarrow> bool \<Rightarrow> 'w BlockChecker \<Rightarrow> bool" where
  "outfileOK sys read c \<longleftrightarrow>
     outfile c = [] \<or>
     (\<forall>w. ofstream_ok sys
            (outfilename (outfile c) (if read then ''read'' else ''write'') (passIndex c) (sizeBytes c)) w)"

section \<open>Properties\<close>

subsection \<open>Pattern generator\<close>

lemma indexByte_xor: "indexByte p i s = p XOR ucast (drop_bit s i)"
proof -
  have m: "(0xff :: size_t) = mask 8"
    by (simp add: mask_eq_exp_minus_1)
  show ?thesis
    unfolding indexByte_def m
    by (rule bit_word_eqI) (auto simp add: bit_simps)
qed

lemma bit_index_byte:
  assumes "n < 64"
  shows "bit (i :: size_t) n = bit (ucast (drop_bit (8 * (n div 8)) i) :: byte) (n mod 8)"
  using assms by (simp add: bit_simps)

lemma initBlock_nth:
  assumes "initBlock b i p = Inr r" and "k < 8"
  shows "r ! k = indexByte p i (8 * k)"
proof -
  from assms(1) have len: "8 \<le> length b"
    and r: "r = b[0 := indexByte p i 0, 1 := indexByte p i 8, 2 := indexByte p i 16,
         3 := indexByte p i 24, 4 := indexByte p i 32, 5 := indexByte p i 40,
         6 := indexByte p i 48, 7 := indexByte p i 56]"
    by (auto simp add: initBlock_def split: if_splits)
  from len have l: "0 < length b" "1 < length b" "2 < length b" "3 < length b"
    "4 < length b" "5 < length b" "6 < length b" "7 < length b"
    by auto
  from \<open>k < 8\<close> consider "k = 0" | "k = 1" | "k = 2" | "k = 3" | "k = 4" | "k = 5" | "k = 6" | "k = 7"
    by linarith
  then show ?thesis
    using l by cases (simp_all add: r nth_list_update)
qed

lemma index_bytes_inj:
  assumes "\<forall>k<8. indexByte p i (8 * k) = indexByte p j (8 * k)"
  shows "i = j"
proof (rule bit_word_eqI)
  fix n assume "n < LENGTH(64)"
  then have n: "n < 64" by simp
  then have k: "n div 8 < 8" by simp
  from assms k have "indexByte p i (8 * (n div 8)) = indexByte p j (8 * (n div 8))"
    by blast
  then have "p XOR (p XOR (ucast (drop_bit (8 * (n div 8)) i) :: byte))
     = p XOR (p XOR ucast (drop_bit (8 * (n div 8)) j))"
    by (simp only: indexByte_xor)
  then have "(ucast (drop_bit (8 * (n div 8)) i) :: byte) = ucast (drop_bit (8 * (n div 8)) j)"
    by (simp only: xor.assoc [symmetric] xor_self_eq xor.left_neutral)
  then show "bit i n = bit j n"
    using bit_index_byte [OF n, of i] bit_index_byte [OF n, of j] by simp
qed

text \<open>
  Claim C9. For every pattern byte \<open>p\<close> and all block indices \<open>i \<noteq> j\<close> (64-bit values),
  \<^verbatim>\<open>initBlock\<close> returns on every buffer of at least 8 bytes, and the buffers written by
  \<^verbatim>\<open>initBlock(p, i)\<close> and \<^verbatim>\<open>initBlock(p, j)\<close> differ in at least one of their first 8
  bytes; byte \<open>k\<close> of the prefix is \<open>p XOR byte\<^sub>k(index)\<close>, little-endian. The length of
  the buffer and its bytes after the first eight are left as they were.
\<close>

theorem initBlock_index_sensitive:
  assumes "8 \<le> length b1" and "8 \<le> length b2" and "i \<noteq> j"
  shows "\<exists>r1 r2. initBlock b1 i p = Inr r1 \<and> initBlock b2 j p = Inr r2
           \<and> (\<exists>k<8. r1 ! k \<noteq> r2 ! k) \<and> take 8 r1 \<noteq> take 8 r2
           \<and> (\<forall>k<8. r1 ! k = p XOR ucast (drop_bit (8 * k) i))
           \<and> (\<forall>k<8. r2 ! k = p XOR ucast (drop_bit (8 * k) j))
           \<and> length r1 = length b1 \<and> drop 8 r1 = drop 8 b1
           \<and> length r2 = length b2 \<and> drop 8 r2 = drop 8 b2"
proof -
  from assms(1) obtain r1 where r1: "initBlock b1 i p = Inr r1"
    by (simp add: initBlock_def)
  from assms(2) obtain r2 where r2: "initBlock b2 j p = Inr r2"
    by (simp add: initBlock_def)
  from \<open>i \<noteq> j\<close> index_bytes_inj [of p i j]
  obtain k where k: "k < 8" "indexByte p i (8 * k) \<noteq> indexByte p j (8 * k)"
    by blast
  then have d: "r1 ! k \<noteq> r2 ! k"
    using initBlock_nth [OF r1] initBlock_nth [OF r2] by simp
  from r1 assms(1) have l1: "length r1 = length b1" and t1: "drop 8 r1 = drop 8 b1"
    by (auto simp add: initBlock_def drop_update_cancel split: if_splits)
  from r2 assms(2) have l2: "length r2 = length b2" and t2: "drop 8 r2 = drop 8 b2"
    by (auto simp add: initBlock_def drop_update_cancel split: if_splits)
  from l1 l2 assms(1,2) k(1) d have "take 8 r1 ! k \<noteq> take 8 r2 ! k"
    by simp
  then have ne: "take 8 r1 \<noteq> take 8 r2"
    by (rule contrapos_nn) simp
  have b1: "\<forall>k<8. r1 ! k = p XOR ucast (drop_bit (8 * k) i)"
    using initBlock_nth [OF r1] by (simp add: indexByte_xor)
  have b2: "\<forall>k<8. r2 ! k = p XOR ucast (drop_bit (8 * k) j)"
    using initBlock_nth [OF r2] by (simp add: indexByte_xor)
  from k(1) d have ex: "\<exists>k<8. r1 ! k \<noteq> r2 ! k"
    by (intro exI [of _ k]) simp
  show ?thesis
    by (intro exI [of _ r1] exI [of _ r2] conjI r1 r2 ex ne b1 b2 l1 t1 l2 t2)
qed

text \<open>
  The blocks 1 and 256 with the pattern \<open>0x55\<close>, in a buffer of 10 and in one of 8 bytes:
  the index is in byte 0 and in byte 1, and the bytes 8 and 9 stay.
\<close>

theorem initBlock_index_sensitive_witness:
  "initBlock (replicate 10 0xAA) 1 0x55
     = Inr [0x54, 0x55, 0x55, 0x55, 0x55, 0x55, 0x55, 0x55, 0xAA, 0xAA]
   \<and> initBlock (replicate 8 0) 256 0x55 = Inr [0x55, 0x54, 0x55, 0x55, 0x55, 0x55, 0x55, 0x55]
   \<and> take 8 [0x54, 0x55, 0x55, 0x55, 0x55, 0x55, 0x55, 0x55, 0xAA, 0xAA :: byte]
       \<noteq> take 8 [0x55, 0x54, 0x55, 0x55, 0x55, 0x55, 0x55, 0x55]"
proof -
  have a: "initBlock (replicate 10 0xAA) 1 0x55
     = Inr [0x54, 0x55, 0x55, 0x55, 0x55, 0x55, 0x55, 0x55, 0xAA, 0xAA]"
    by code_simp
  have b: "initBlock (replicate 8 0) 256 0x55 = Inr [0x55, 0x54, 0x55, 0x55, 0x55, 0x55, 0x55, 0x55]"
    by code_simp
  have "(8 :: nat) \<le> length (replicate 10 (0xAA :: byte))" and "(8 :: nat) \<le> length (replicate 8 (0 :: byte))"
    and "(1 :: size_t) \<noteq> 256"
    by simp_all
  from initBlock_index_sensitive [OF this, of "0x55"] a b show ?thesis
    by auto
qed

subsection \<open>Block geometry\<close>

lemma ceil_div_nat:
  fixes a b :: nat
  assumes "0 < b"
  shows "(a + b - 1) div b = (if a mod b = 0 then a div b else a div b + 1)"
proof -
  define q where "q = a div b"
  define r where "r = a mod b"
  have a: "a = r + q * b"
    by (simp add: q_def r_def)
  have rb: "r < b"
    using assms by (simp add: r_def)
  show ?thesis
  proof (cases "r = 0")
    case True
    have "a + b - 1 = (b - 1) + q * b"
      using a True assms by simp
    then have "(a + b - 1) div b = ((b - 1) + q * b) div b"
      by (rule arg_cong)
    also have "\<dots> = (b - 1) div b + q"
      using assms by (simp only: div_mult_self1 [OF less_imp_neq [OF assms, symmetric]])
    also have "\<dots> = q"
      using assms by simp
    finally show ?thesis
      using True by (simp add: q_def r_def)
  next
    case False
    then have eq: "r + q * b + b - 1 = (r - 1) + (q + 1) * b"
      by simp
    have "a + b - 1 = (r - 1) + (q + 1) * b"
      using a eq by simp
    then have "(a + b - 1) div b = ((r - 1) + (q + 1) * b) div b"
      by (rule arg_cong)
    also have "\<dots> = (r - 1) div b + (q + 1)"
      by (simp only: div_mult_self1 [OF less_imp_neq [OF assms, symmetric]])
    also have "\<dots> = q + 1"
      using rb by simp
    finally show ?thesis
      using False by (simp add: q_def r_def)
  qed
qed

lemma ceil_div_real:
  fixes a b :: nat
  assumes "0 < b"
  shows "int ((a + b - 1) div b) = \<lceil>real a / real b\<rceil>"
proof -
  have "\<lceil>real a / real b\<rceil> = \<lceil>real_of_int (int a) / real_of_int (int b)\<rceil>" by simp
  also have "\<dots> = - (- int a div int b)" by (rule ceiling_divide_eq_div)
  also have "\<dots> = int (if a mod b = 0 then a div b else a div b + 1)"
  proof (cases "a mod b = 0")
    case True
    then have "int b dvd int a" by (simp add: mod_eq_0_iff_dvd)
    then have "- int a div int b = - (int a div int b)" by (simp add: dvd_neg_div)
    then show ?thesis using True by (simp add: zdiv_int)
  next
    case False
    then have "\<not> int b dvd int a" by (simp add: mod_eq_0_iff_dvd)
    then have "- int a div int b = - (int a div int b) - 1"
      using assms by (simp add: div_minus_right zdiv_zminus1_eq_if int_dvd_int_iff mod_eq_0_iff_dvd)
    then show ?thesis using False by (simp add: zdiv_int)
  qed
  finally have "\<lceil>real a / real b\<rceil> = int ((a + b - 1) div b)"
    by (simp only: ceil_div_nat [OF assms])
  then show ?thesis by simp
qed

lemma unat_numBlocks:
  assumes "0 < bs" and "unat sz + unat bs - 1 < 2 ^ 64"
  shows "unat ((sz + bs - 1) div bs :: size_t) = (unat sz + unat bs - 1) div unat bs"
proof -
  from \<open>0 < bs\<close> have b: "0 < unat bs"
    by (simp add: word_less_nat_alt)
  from \<open>0 < bs\<close> have "bs \<noteq> 0"
    by auto
  then have u1: "unat (bs - 1) = unat bs - 1"
    by (rule unat_minus_one)
  have e: "sz + bs - 1 = sz + (bs - 1)"
    by simp
  have "unat sz + unat (bs - 1) < 2 ^ LENGTH(64)"
    using assms(2) b u1 by simp
  then have "unat (sz + (bs - 1)) = unat sz + unat (bs - 1)"
    by (simp only: unat_add_lem)
  also have "\<dots> = unat sz + unat bs - 1"
    using b u1 by simp
  finally have "unat (sz + bs - 1) = unat sz + unat bs - 1"
    by (simp only: e)
  then show ?thesis
    by (simp only: unat_div)
qed

lemma unat_accessSize:
  fixes sz bs :: size_t
  assumes bs: "0 < bs" and nowrap: "unat sz + unat bs - 1 < 2 ^ 64"
    and k: "k < (unat sz + unat bs - 1) div unat bs"
  shows "unat (accessSize sz bs (of_nat k)) =
    (if Suc k = (unat sz + unat bs - 1) div unat bs \<and> unat sz mod unat bs \<noteq> 0
     then unat sz mod unat bs else unat bs)"
proof -
  define a where "a = unat sz"
  define b where "b = unat bs"
  define n where "n = (a + b - 1) div b"
  from bs have b: "0 < b"
    by (simp add: b_def word_less_nat_alt)
  have nb: "n * b \<le> a + b - 1"
    unfolding n_def by simp
  from k have kn: "Suc k \<le> n"
    by (simp add: n_def a_def b_def)
  then have "Suc k * b \<le> n * b"
    by (rule mult_le_mono1)
  with nb nowrap have kb: "Suc k * b < 2 ^ 64"
    by (simp add: a_def b_def)
  have "Suc k * 1 \<le> Suc k * b"
    using b by (simp only: mult_le_mono2 Suc_leI One_nat_def)
  with kb have k64: "Suc k < 2 ^ 64"
    by simp
  then have "Suc k mod 2 ^ LENGTH(64) = Suc k"
    by simp
  then have "unat (of_nat (Suc k) :: size_t) = Suc k"
    by (simp only: unat_of_nat)
  moreover have "(of_nat (Suc k) :: size_t) = of_nat k + 1"
    by simp
  ultimately have uk: "unat (of_nat k + 1 :: size_t) = Suc k"
    by (simp only:)
  have "unat (of_nat k + 1 :: size_t) * unat bs < 2 ^ LENGTH(64)"
    using kb uk by (simp add: b_def)
  then have prod: "unat ((of_nat k + 1) * bs) = Suc k * b"
    using unat_mult_lem [of "of_nat k + 1 :: size_t" bs] uk by (simp add: b_def)
  have cond: "((of_nat k + 1) * bs > sz) = (Suc k * b > a)"
    by (simp add: word_less_nat_alt prod a_def)
  have n_eq: "n = (if a mod b = 0 then a div b else a div b + 1)"
    unfolding n_def by (rule ceil_div_nat [OF b])
  have a_eq: "a = a div b * b + a mod b"
    by simp
  have "(Suc k * b > a) = (Suc k = n \<and> a mod b \<noteq> 0)"
  proof (cases "a mod b = 0")
    case True
    with n_eq a_eq have "n * b = a" by (metis add.right_neutral)
    with \<open>Suc k * b \<le> n * b\<close> True show ?thesis by simp
  next
    case False
    with n_eq have n1: "n = a div b + 1" by simp
    show ?thesis
    proof (cases "Suc k = n")
      case True
      have "a < a div b * b + b"
        using b by (metis a_eq add_less_cancel_left mod_less_divisor)
      with True n1 False show ?thesis by simp
    next
      case False
      with kn n1 have "Suc k \<le> a div b" by simp
      then have "Suc k * b \<le> a div b * b" by (rule mult_le_mono1)
      also have "\<dots> \<le> a" by simp
      finally show ?thesis using False by simp
    qed
  qed
  with cond show ?thesis
    by (simp add: accessSize_def unat_mod a_def b_def n_def)
qed

lemma sum_accessLengths:
  fixes sz bs n :: size_t
  assumes sz: "0 < sz" and bs: "0 < bs" and nowrap: "unat sz + unat bs - 1 < 2 ^ 64"
    and n: "unat n = (unat sz + unat bs - 1) div unat bs"
  shows "sum_list (accessLengths sz bs n) = unat sz"
proof -
  define a where "a = unat sz"
  define b where "b = unat bs"
  define N where "N = (a + b - 1) div b"
  define f where "f k = (if Suc k = N \<and> a mod b \<noteq> 0 then a mod b else b)" for k
  from bs have b: "0 < b"
    by (simp add: b_def word_less_nat_alt)
  from sz have a: "0 < a"
    by (simp add: a_def word_less_nat_alt)
  have N_eq: "N = (if a mod b = 0 then a div b else a div b + 1)"
    unfolding N_def by (rule ceil_div_nat [OF b])
  have a_eq: "a = a div b * b + a mod b"
    by simp
  have "0 < N"
  proof (cases "a mod b = 0")
    case True
    with a_eq a have "a div b \<noteq> 0" by (metis add.right_neutral mult_zero_left less_irrefl)
    with N_eq True show ?thesis by simp
  next
    case False
    with N_eq show ?thesis by simp
  qed
  then obtain M where M: "N = Suc M"
    by (cases N) auto
  have "accessLengths sz bs n = map f [0..<N]"
    unfolding accessLengths_def n
    using unat_accessSize [OF bs nowrap]
    by (simp add: f_def N_def a_def b_def)
  then have "sum_list (accessLengths sz bs n) = sum_list (map f [0..<M]) + f M"
    by (simp add: M)
  also have "map f [0..<M] = map (\<lambda>k. b) [0..<M]"
    by (simp add: f_def M)
  also have "sum_list (map (\<lambda>k. b) [0..<M]) = M * b"
    by (simp add: sum_list_triv)
  also have "M * b + f M = a"
  proof (cases "a mod b = 0")
    case True
    with N_eq M have "a div b = Suc M" by simp
    with a_eq True have "a = Suc M * b" by (metis add.right_neutral)
    with True show ?thesis by (simp add: f_def M)
  next
    case False
    with N_eq M have "a div b = M" by simp
    with a_eq have "a = M * b + a mod b" by simp
    with False show ?thesis by (simp add: f_def M)
  qed
  finally show ?thesis
    by (simp add: a_def)
qed

text \<open>
  Claim C6, as amended. For all \<open>sizeBytes > 0\<close> and \<open>blockSize > 0\<close> for which
  \<open>sizeBytes + blockSize - 1\<close> fits the 64-bit \<^verbatim>\<open>size_t\<close>: the constructor computes
  \<open>numBlocks = \<lceil>sizeBytes / blockSize\<rceil>\<close>; with \<open>r = sizeBytes mod blockSize\<close>, every block
  has access length \<open>blockSize\<close>, except that for \<open>r \<noteq> 0\<close> the last block (index
  \<open>numBlocks - 1\<close>) has length \<open>r\<close>; and the access lengths add up to \<open>sizeBytes\<close>.
\<close>

theorem block_geometry:
  fixes sizeBytes blockSize :: size_t
  assumes sz: "0 < sizeBytes" and bs: "0 < blockSize"
    and nowrap: "unat sizeBytes + unat blockSize - 1 < 2 ^ 64"
  shows "\<exists>n. calcNumBlocks sizeBytes blockSize = Inr n
    \<and> int (unat n) = \<lceil>real (unat sizeBytes) / real (unat blockSize)\<rceil>
    \<and> (\<forall>i<n. accessSize sizeBytes blockSize i =
          (if i = n - 1 \<and> sizeBytes mod blockSize \<noteq> 0 then sizeBytes mod blockSize else blockSize))
    \<and> sum_list (accessLengths sizeBytes blockSize n) = unat sizeBytes"
proof -
  define n where "n = (sizeBytes + blockSize - 1) div blockSize"
  from bs have b: "0 < unat blockSize"
    by (simp add: word_less_nat_alt)
  from bs have c: "calcNumBlocks sizeBytes blockSize = Inr n"
    by (auto simp add: calcNumBlocks_def n_def)
  have un: "unat n = (unat sizeBytes + unat blockSize - 1) div unat blockSize"
    unfolding n_def by (rule unat_numBlocks [OF bs nowrap])
  then have ceil: "int (unat n) = \<lceil>real (unat sizeBytes) / real (unat blockSize)\<rceil>"
    by (simp only: ceil_div_real [OF b])
  have acc: "accessSize sizeBytes blockSize i =
          (if i = n - 1 \<and> sizeBytes mod blockSize \<noteq> 0 then sizeBytes mod blockSize else blockSize)"
    if "i < n" for i
  proof -
    from that have k: "unat i < (unat sizeBytes + unat blockSize - 1) div unat blockSize"
      by (simp add: word_less_nat_alt un)
    from that have "n \<noteq> 0"
      by auto
    then have "unat (n - 1) = unat n - 1"
      by (rule unat_minus_one)
    with that have last: "(i = n - 1) = (Suc (unat i) = unat n)"
      by (auto simp add: word_less_nat_alt word_unat_eq_iff)
    have m: "(sizeBytes mod blockSize \<noteq> 0) = (unat sizeBytes mod unat blockSize \<noteq> 0)"
      by (simp add: word_unat_eq_iff unat_mod)
    have "unat (accessSize sizeBytes blockSize i) =
      unat (if i = n - 1 \<and> sizeBytes mod blockSize \<noteq> 0 then sizeBytes mod blockSize else blockSize)"
      using unat_accessSize [OF bs nowrap k]
      by (simp add: last m un unat_mod)
    then show ?thesis
      by (simp only: word_unat_eq_iff)
  qed
  have "sum_list (accessLengths sizeBytes blockSize n) = unat sizeBytes"
    by (rule sum_accessLengths [OF sz bs nowrap un])
  with c ceil acc show ?thesis
    by blast
qed

text \<open>The scenario of a 10 MiB device with 4 MiB blocks: 3 blocks of 4 MiB, 4 MiB and 2 MiB.\<close>

theorem block_geometry_witness:
  "calcNumBlocks 10485760 4194304 = Inr 3
   \<and> accessLengths 10485760 4194304 3 = [4194304, 4194304, 2097152]
   \<and> sum_list (accessLengths 10485760 4194304 3) = unat (10485760 :: size_t)"
proof -
  have c: "calcNumBlocks 10485760 4194304 = Inr 3"
    by (simp add: calcNumBlocks_def)
  have l: "accessLengths 10485760 4194304 3 = [4194304, 4194304, 2097152]"
    by (simp add: accessLengths_def accessSize_def upt_rec)
  have "(0 :: size_t) < 10485760" and "(0 :: size_t) < 4194304"
    and "unat (10485760 :: size_t) + unat (4194304 :: size_t) - 1 < 2 ^ 64"
    by simp_all
  from block_geometry [OF this] c l show ?thesis
    by auto
qed

text \<open>
  Claim C6 as stated, for all positive sizes, fails where the sum wraps: for
  \<open>sizeBytes = 100\<close> and \<open>blockSize = 2\<^sup>6\<^sup>4 - 1\<close>, line 36 computes
  \<open>(100 + (2\<^sup>6\<^sup>4 - 1) - 1) mod 2\<^sup>6\<^sup>4 = 98\<close> and \<open>98 div (2\<^sup>6\<^sup>4 - 1) = 0\<close> blocks, where the
  ceiling is 1; no block is accessed and the access lengths add up to 0, not 100.
\<close>

theorem block_geometry_wraps:
  "calcNumBlocks 100 0xFFFFFFFFFFFFFFFF = Inr 0
   \<and> \<lceil>real (unat (100 :: size_t)) / real (unat (0xFFFFFFFFFFFFFFFF :: size_t))\<rceil> = 1
   \<and> sum_list (accessLengths 100 0xFFFFFFFFFFFFFFFF 0) = 0
   \<and> unat (100 :: size_t) = 100"
  by (simp add: calcNumBlocks_def accessLengths_def)

subsection \<open>Setup\<close>

text \<open>
  Claim C5, at the input \<open>blockSize = 0\<close> (\<^verbatim>\<open>--block-size 0\<close>), for every device: line 36
  divides by \<open>blockSize\<close> before anything is checked, so the constructor does not fail with
  the "Cannot determine size!" error (the only check, at line 41, is on \<open>sizeBytes\<close> and
  comes later) but divides by zero.
\<close>

theorem setup_blockSize_zero:
  "newBlockChecker sys file 0 pats ofile w = Inl DivisionByZero
   \<and> run sys file 0 pats ofile overwrite w = Inl DivisionByZero"
  by (simp add: run_def newBlockChecker_def calcNumBlocks_def bindE_def)

text \<open>The other half of the claim holds: with a block size other than 0, a size of 0 ends the
  run with the size error before any pass.\<close>

lemma setup_sizeBytes_zero:
  assumes "bsize \<noteq> 0" and "getFileSize sys file w = 0"
  shows "run sys file bsize pats ofile overwrite w = Inl CannotDetermineSize"
  using assms by (simp add: run_def newBlockChecker_def calcNumBlocks_def bindE_def)

subsection \<open>Read-only mode\<close>

text \<open>
  A read pass without a pattern never completes normally: lines 96 and 100 evaluate
  \<^verbatim>\<open>*pattern\<close> whether or not a pattern is present; only the comparison (line 116) is
  guarded by \<^verbatim>\<open>if (pattern)\<close>.
\<close>

lemma readPass_absent_pattern:
  "readPass sys None c \<noteq> Inr c'"
  by (simp add: readPass_def deref_def bindE_def Let_def split: prod.splits)

text \<open>
  Claim C1, at the input of a read-only run (\<^verbatim>\<open>checkReadOnly\<close>) over a healthy 16-byte device
  with 8-byte blocks: the absent pattern is dereferenced (line 96) before the first block
  is read.
\<close>

theorem readOnly_dereferences_absent_pattern:
  "run (simSys 0 8 []) ''dev'' 8 [0] [] False (simDevice 16) = Inl EmptyOptionalAccess"
  by code_simp

subsection \<open>Round trip\<close>

text \<open>
  Claim C3, at the input of a healthy 4-byte device, 8-byte blocks and pattern \<open>0x55\<close>:
  the write pass writes the 4 bytes of the only (partial) block, the read pass reads them
  back unchanged, and the comparison (line 118) runs over all \<open>blockSize = 8\<close> bytes of
  the buffer instead of the 4 bytes read; at index 4 it meets the buffer's initial 0 where
  \<open>0x55\<close> is expected and counts a read error.
\<close>

theorem roundtrip_partial_block_data_error:
  "map_sum id (\<lambda>c. (errors (totalRead c), errors (totalWrite c), dataErrors (cout c), disk (world c)))
     (run (simSys 0 8 []) ''dev'' 8 [0x55] [] True (simDevice 4))
   = Inr (1, 0, [(0x55, 0, 0)], [0x55, 0x55, 0x55, 0x55])"
  by code_simp

text \<open>On a healthy device of two full blocks the same run finds no error.\<close>

lemma roundtrip_full_blocks:
  "passRecords (run (simSys 0 8 []) ''dev'' 8 [0x55] [] True (simDevice 16)) = Inr
     ([\<lparr>time = 0, errors = 0, bytes = 8\<rparr>, \<lparr>time = 0, errors = 0, bytes = 8\<rparr>], 0, [])"
  by code_simp

subsection \<open>Progress reporter\<close>

text \<open>
  Claim C4, at the input of patterns \<open>[0x55, 0xAA]\<close> (4 passes) on a healthy 8-byte device
  with a clock that advances by one second per reading: the progress line of pass index 1,
  the read pass of pattern \<open>0x55 = patterns[1 div 2]\<close>, shows \<open>patterns[1] = 0xAA\<close>. The
  direction is as claimed.
\<close>

theorem progress_shows_wrong_pattern:
  "map_sum id (\<lambda>c. progressPrefixes (cout c))
     (bindE (newBlockChecker (simSys 1 8 []) ''dev'' 8 [0x55, 0xAA] [] (simDevice 8)) (\<lambda>c.
      bindE (writePass (simSys 1 8 []) 0x55
               (c\<lparr>numPasses := 4, readPassesRemaining := 2, writePassesRemaining := 2\<rparr>))
            (readPass (simSys 1 8 []) (Some 0x55))))
   = Inr [Some (''write'', 1, 4, 0x55), Some (''read'', 2, 4, 0xAA)]"
  by code_simp

text \<open>With one pattern, the progress line of pass index 1 reads \<^verbatim>\<open>patterns[1]\<close>, beyond the vector.\<close>

lemma progress_out_of_range:
  "run (simSys 1 8 []) ''dev'' 8 [0x55] [] True (simDevice 8) = Inl IndexOutOfRange"
  by code_simp

subsection \<open>Loops\<close>

lemma bindE_Inr_iff: "bindE m f = Inr y \<longleftrightarrow> (\<exists>x. m = Inr x \<and> f x = Inr y)"
  by (cases m) (simp_all add: bindE_def)

lemma vec_at_Inr_iff: "vec_at v i = Inr x \<longleftrightarrow> unat i < length v \<and> x = v ! unat i"
  by (auto simp add: vec_at_def)

lemma unat_Suc_less:
  fixes i n :: size_t
  assumes "i < n"
  shows "unat (i + 1) = Suc (unat i)"
proof -
  from assms have "unat i < unat n"
    by (simp add: word_less_nat_alt)
  moreover have "unat n < 2 ^ 64"
    using unsigned_less [of n] by simp
  ultimately have "unat i + unat (1 :: size_t) < 2 ^ LENGTH(64)"
    by simp
  then show ?thesis
    using unat_add_lem [of i 1] by simp
qed

text \<open>Partial correctness of a loop: an invariant kept by every iteration that returns.\<close>

lemma forE_invariant:
  assumes "forE i n body s = Inr s'" and "i \<le> n" and "I i s"
    and "\<And>j t t'. i \<le> j \<Longrightarrow> j < n \<Longrightarrow> I j t \<Longrightarrow> body j t = Inr t' \<Longrightarrow> I (j + 1) t'"
  shows "I n s'"
  using assms
proof (induction i n body s rule: forE.induct)
  case (1 i n body s)
  show ?case
  proof (cases "i < n")
    case True
    with "1.prems"(1) obtain s1 where b: "body i s = Inr s1" and r: "forE (i + 1) n body s1 = Inr s'"
      by (subst (asm) forE.simps) (auto split: sum.splits)
    from True have suc: "unat (i + 1) = Suc (unat i)"
      by (rule unat_Suc_less)
    with True have le: "i + 1 \<le> n"
      by (simp add: word_le_nat_alt word_less_nat_alt)
    have i1: "I (i + 1) s1"
      using "1.prems"(4) [OF _ True "1.prems"(3) b] by simp
    have step: "I (j + 1) t'" if "i + 1 \<le> j" "j < n" "I j t" "body j t = Inr t'" for j t t'
    proof -
      from that(1) suc have "i \<le> j"
        by (simp add: word_le_nat_alt)
      then show ?thesis
        using that(2,3,4) by (rule "1.prems"(4))
    qed
    show ?thesis
      by (rule "1.IH" [OF True b r le i1 step])
  next
    case False
    with "1.prems"(2) have "i = n"
      by simp
    moreover from False "1.prems"(1) have "s' = s"
      by (subst (asm) forE.simps) simp
    ultimately show ?thesis
      using "1.prems"(3) by simp
  qed
qed

text \<open>Total correctness: every iteration returns and keeps the invariant, so the loop returns.\<close>

lemma forE_total:
  assumes "i \<le> n" and "I i s"
    and "\<And>j t. i \<le> j \<Longrightarrow> j < n \<Longrightarrow> I j t \<Longrightarrow> \<exists>t'. body j t = Inr t' \<and> I (j + 1) t'"
  shows "\<exists>s'. forE i n body s = Inr s' \<and> I n s'"
  using assms
proof (induction i n body s rule: forE.induct)
  case (1 i n body s)
  show ?case
  proof (cases "i < n")
    case True
    from "1.prems"(3) [OF _ True "1.prems"(2)] obtain s1 where b: "body i s = Inr s1"
      and i1: "I (i + 1) s1"
      by auto
    from True have suc: "unat (i + 1) = Suc (unat i)"
      by (rule unat_Suc_less)
    with True have le: "i + 1 \<le> n"
      by (simp add: word_le_nat_alt word_less_nat_alt)
    have step: "\<exists>t'. body j t = Inr t' \<and> I (j + 1) t'" if "i + 1 \<le> j" "j < n" "I j t" for j t
    proof -
      from that(1) suc have "i \<le> j"
        by (simp add: word_le_nat_alt)
      then show ?thesis
        using that(2,3) by (rule "1.prems"(3))
    qed
    from "1.IH" [OF True b le i1 step] obtain s' where "forE (i + 1) n body s1 = Inr s'" "I n s'"
      by blast
    with True b show ?thesis
      by (subst forE.simps) simp
  next
    case False
    with "1.prems"(1) have "i = n"
      by simp
    with False "1.prems"(2) show ?thesis
      by (subst forE.simps) simp
  qed
qed

subsection \<open>Statistics aggregator\<close>

lemma sorted_rates_unique:
  assumes "mset ys = mset xs" and "sorted (map (getRateMB rnd) ys)"
  shows "map (getRateMB rnd) ys = sort (map (getRateMB rnd) xs)"
proof -
  from assms(1) have "mset (map (getRateMB rnd) ys) = mset (map (getRateMB rnd) xs)"
    by simp
  then have "sort (map (getRateMB rnd) xs) = map (getRateMB rnd) ys"
    using assms(2) by (rule properties_for_sort)
  then show ?thesis
    by simp
qed

lemma rates_sort_key:
  "map (getRateMB rnd) (sort_key (getRateMB rnd) xs) = sort (map (getRateMB rnd) xs)"
  by (rule sorted_rates_unique) simp_all

lemma countSlow_takeWhile:
  assumes "length v = unat n" and "unat num \<le> length v"
  shows "countSlow rnd v n limit num =
     Inr (of_nat (unat num + length (takeWhile (\<lambda>r. getRateMB rnd r < limit) (drop (unat num) v))))"
  using assms
proof (induction rnd v n limit num rule: countSlow.induct)
  case (1 rnd v n limit num)
  show ?case
  proof (cases "num < n")
    case True
    then have lt: "unat num < length v"
      using "1.prems" by (simp add: word_less_nat_alt)
    from True have suc: "unat (num + 1) = Suc (unat num)"
      by (rule unat_Suc_less)
    from lt have d: "drop (unat num) v = v ! unat num # drop (Suc (unat num)) v"
      by (simp add: Cons_nth_drop_Suc)
    from lt have at: "vec_at v num = Inr (v ! unat num)"
      by (simp add: vec_at_def)
    show ?thesis
    proof (cases "getRateMB rnd (v ! unat num) < limit")
      case slow: True
      from lt suc have "unat (num + 1) \<le> length v"
        by simp
      with "1.IH" [OF True at slow "1.prems"(1)]
      have "countSlow rnd v n limit (num + 1) =
        Inr (of_nat (Suc (unat num)
               + length (takeWhile (\<lambda>r. getRateMB rnd r < limit) (drop (Suc (unat num)) v))))"
        by (simp add: suc)
      then show ?thesis
        using True at slow d by (subst countSlow.simps) simp
    next
      case False
      then show ?thesis
        using True at d by (subst countSlow.simps) simp
    qed
  next
    case False
    with "1.prems" have e: "length v = unat num"
      by (simp add: word_less_nat_alt)
    from False show ?thesis
      by (subst countSlow.simps) (simp add: e)
  qed
qed

lemma takeWhile_sorted_filter:
  fixes limit :: real
  assumes "sorted (map f v)"
  shows "takeWhile (\<lambda>r. f r < limit) v = filter (\<lambda>r. f r < limit) v"
  using assms
proof (induction v)
  case Nil
  then show ?case by simp
next
  case (Cons x v)
  show ?case
  proof (cases "f x < limit")
    case True
    with Cons show ?thesis by simp
  next
    case False
    with Cons.prems have "\<forall>y\<in>set v. \<not> f y < limit"
      by auto
    then have "filter (\<lambda>r. f r < limit) v = []"
      by (simp add: filter_empty_conv)
    with False show ?thesis by simp
  qed
qed

lemma countSlow_sorted:
  assumes len: "length v = unat n" and sorted: "sorted (map (getRateMB rnd) v)"
  shows "countSlow rnd v n limit 0 =
     Inr (of_nat (length (filter (\<lambda>r. r < limit) (map (getRateMB rnd) v))))"
proof -
  have "countSlow rnd v n limit 0 = Inr (of_nat (length (takeWhile (\<lambda>r. getRateMB rnd r < limit) v)))"
    using countSlow_takeWhile [OF len, of 0 rnd limit] by simp
  also have "takeWhile (\<lambda>r. getRateMB rnd r < limit) v = filter (\<lambda>r. getRateMB rnd r < limit) v"
    by (rule takeWhile_sorted_filter [OF sorted])
  also have "length (filter (\<lambda>r. getRateMB rnd r < limit) v)
      = length (filter (\<lambda>r. r < limit) (map (getRateMB rnd) v))"
    by (simp add: filter_map comp_def)
  finally show ?thesis .
qed

lemma of_nat_size_t_eq_0:
  assumes "k < 2 ^ 64"
  shows "((of_nat k :: size_t) = 0) = (k = 0)"
proof -
  from assms have u: "unat (of_nat k :: size_t) = k"
    by (simp add: unat_of_nat)
  show ?thesis
  proof
    assume "(of_nat k :: size_t) = 0"
    then have "unat (of_nat k :: size_t) = 0"
      by simp
    with u show "k = 0"
      by simp
  next
    assume "k = 0"
    then show "(of_nat k :: size_t) = 0"
      by simp
  qed
qed

lemma slowWarnings_append: "slowWarnings (xs @ ys) = slowWarnings xs @ slowWarnings ys"
  by (simp add: slowWarnings_def)

lemma passSummaries_append: "passSummaries (xs @ ys) = passSummaries xs @ passSummaries ys"
  by (simp add: passSummaries_def)

lemma warnSlow_sorted:
  assumes "length (blockStats c) = unat (numBlocks c)"
    and "sorted (map (getRateMB rnd) (blockStats c))"
  shows "\<exists>c'. warnSlow rnd ps med c = Inr c'
     \<and> slowWarnings (cout c') =
         slowWarnings (cout c) @ slowLines rnd ps med (map (getRateMB rnd) (blockStats c))
     \<and> passSummaries (cout c') = passSummaries (cout c)
     \<and> blockStats c' = blockStats c \<and> world c' = world c"
  using assms
proof (induction ps arbitrary: c)
  case Nil
  then show ?case
    by (simp add: slowLines_def)
next
  case (Cons p ps)
  define limit where "limit = fdiv rnd (fmul rnd med p) 100"
  define k where "k = length (filter (\<lambda>r. r < limit) (map (getRateMB rnd) (blockStats c)))"
  define c1 where "c1 = (if (of_nat k :: size_t) \<noteq> 0 then print (SlowWarning p (of_nat k)) c else c)"
  have cnt: "countSlow rnd (blockStats c) (numBlocks c) limit 0 = Inr (of_nat k)"
    unfolding k_def by (rule countSlow_sorted [OF Cons.prems])
  have "k \<le> length (map (getRateMB rnd) (blockStats c))"
    unfolding k_def by (rule length_filter_le)
  then have "k \<le> length (blockStats c)"
    by simp
  also have "\<dots> < 2 ^ 64"
    using Cons.prems(1) unsigned_less [of "numBlocks c"] by simp
  finally have z: "((of_nat k :: size_t) = 0) = (k = 0)"
    by (rule of_nat_size_t_eq_0)
  have c1: "length (blockStats c1) = unat (numBlocks c1)" "sorted (map (getRateMB rnd) (blockStats c1))"
    "blockStats c1 = blockStats c" "passSummaries (cout c1) = passSummaries (cout c)"
    "slowWarnings (cout c1) = slowWarnings (cout c) @ (if 0 < k then [(p, of_nat k)] else [])"
    "world c1 = world c"
    using Cons.prems z
    by (auto simp add: c1_def print_def slowWarnings_def passSummaries_def)
  from Cons.IH [OF c1(1,2)] obtain c' where c': "warnSlow rnd ps med c1 = Inr c'"
    "slowWarnings (cout c') =
       slowWarnings (cout c1) @ slowLines rnd ps med (map (getRateMB rnd) (blockStats c1))"
    "passSummaries (cout c') = passSummaries (cout c1)" "blockStats c' = blockStats c1"
    "world c' = world c1"
    by blast
  have run: "warnSlow rnd (p # ps) med c = Inr c'"
    using cnt c'(1) by (simp add: bindE_def c1_def limit_def)
  have sl: "slowLines rnd (p # ps) med (map (getRateMB rnd) (blockStats c)) =
      (if 0 < k then [(p, of_nat k)] else []) @ slowLines rnd ps med (map (getRateMB rnd) (blockStats c))"
    by (simp add: slowLines_def k_def limit_def Let_def)
  have "slowWarnings (cout c') =
      slowWarnings (cout c) @ slowLines rnd (p # ps) med (map (getRateMB rnd) (blockStats c))"
    by (simp only: c'(2) c1(3,5) sl append_assoc)
  moreover have "passSummaries (cout c') = passSummaries (cout c)"
    by (simp only: c'(3) c1(4))
  moreover have "blockStats c' = blockStats c"
    by (simp only: c'(4) c1(3))
  moreover have "world c' = world c"
    by (simp only: c'(5) c1(6))
  ultimately show ?case
    using run by blast
qed

lemma length_filter_sort:
  "length (filter P (sort xs)) = length (filter P xs)"
proof -
  have "mset (filter P (sort xs)) = mset (filter P xs)"
    by (simp only: mset_filter mset_sort)
  then have "size (mset (filter P (sort xs))) = size (mset (filter P xs))"
    by (rule arg_cong)
  then show ?thesis
    by (simp only: size_mset)
qed

lemma slowLines_sort: "slowLines rnd ps med (sort rates) = slowLines rnd ps med rates"
  by (simp add: slowLines_def length_filter_sort)

text \<open>The loop of lines 262-265 returns one line per block when there is a record for each.\<close>

lemma csvLines_total:
  assumes "length v = unat n"
  shows "csvLines n v = Inr (map (\<lambda>k. (of_nat k, time (v ! k), errors (v ! k))) [0..<unat n])"
proof -
  define I where "I j ls \<longleftrightarrow> ls = map (\<lambda>k. (of_nat k :: size_t, time (v ! k), errors (v ! k))) [0..<unat j]"
    for j :: size_t and ls
  have "\<exists>ls. forE 0 n (\<lambda>i ls. bindE (vec_at v i) (\<lambda>r. Inr (ls @ [(i, time r, errors r)]))) [] = Inr ls
      \<and> I n ls"
  proof (rule forE_total)
    show "(0 :: size_t) \<le> n"
      by simp
    show "I 0 []"
      by (simp add: I_def)
  next
    fix j :: size_t and t
    assume j: "j < n" and t: "I j t"
    from j assms have lt: "unat j < length v"
      by (simp add: word_less_nat_alt)
    from j have suc: "unat (j + 1) = Suc (unat j)"
      by (rule unat_Suc_less)
    from lt t have "bindE (vec_at v j) (\<lambda>r. Inr (t @ [(j, time r, errors r)]))
        = Inr (t @ [(j, time (v ! unat j), errors (v ! unat j))])"
      by (simp add: vec_at_def bindE_def)
    moreover from t have "I (j + 1) (t @ [(j, time (v ! unat j), errors (v ! unat j))])"
      by (simp add: I_def suc)
    ultimately show "\<exists>t'. bindE (vec_at v j) (\<lambda>r. Inr (t @ [(j, time r, errors r)])) = Inr t'
        \<and> I (j + 1) t'"
      by simp
  qed
  then show ?thesis
    by (auto simp add: csvLines_def I_def)
qed

lemma writeOutfile_Inr:
  assumes "writeOutfile sys readWrite c = Inr c1"
  shows "blockStats c1 = blockStats c" and "numBlocks c1 = numBlocks c"
    and "passSummaries (cout c1) = passSummaries (cout c)"
    and "slowWarnings (cout c1) = slowWarnings (cout c)"
    and "world c1 = world c"
proof -
  from assms have "c1 = c \<or> (\<exists>name ls. c1 = print (CsvFile name ls) c)"
    unfolding writeOutfile_def Let_def bindE_def
    by (simp split: if_splits sum.splits) blast
  then show "blockStats c1 = blockStats c" and "numBlocks c1 = numBlocks c"
    and "passSummaries (cout c1) = passSummaries (cout c)"
    and "slowWarnings (cout c1) = slowWarnings (cout c)"
    and "world c1 = world c"
    by (auto simp add: print_def passSummaries_def slowWarnings_def)
qed

lemma writeOutfile_total:
  assumes "length (blockStats c) = unat (numBlocks c)"
    and "outfile c = [] \<or> ofstream_ok sys (outfilename (outfile c) readWrite (passIndex c) (sizeBytes c)) (world c)"
  shows "\<exists>c1. writeOutfile sys readWrite c = Inr c1"
  using assms(2) csvLines_total [OF assms(1)]
  by (auto simp add: writeOutfile_def Let_def bindE_def)

lemma collectStats_total:
  assumes len: "length (blockStats c) = unat (numBlocks c)" and pos: "0 < unat (numBlocks c)"
  shows "\<exists>c'. collectStats rnd readWrite c = Inr c'
    \<and> blockStats c' = sort_key (getRateMB rnd) (blockStats c)
    \<and> passSummaries (cout c') = passSummaries (cout c) @
           [(sort (map (getRateMB rnd) (blockStats c)) ! 0,
             sort (map (getRateMB rnd) (blockStats c)) ! (unat (numBlocks c) div 2),
             sort (map (getRateMB rnd) (blockStats c)) ! (unat (numBlocks c) - 1))]
    \<and> slowWarnings (cout c') = slowWarnings (cout c) @
           slowLines rnd [50, 20, 10, 5]
             (sort (map (getRateMB rnd) (blockStats c)) ! (unat (numBlocks c) div 2))
             (sort (map (getRateMB rnd) (blockStats c)))
    \<and> world c' = world c"
proof -
  define v where "v = sort_key (getRateMB rnd) (blockStats c)"
  define rates where "rates = sort (map (getRateMB rnd) (blockStats c))"
  define n where "n = unat (numBlocks c)"
  have rates: "map (getRateMB rnd) v = rates"
    unfolding v_def rates_def by (rule rates_sort_key)
  have lv: "length v = n"
    by (simp add: v_def n_def len)
  from pos have "numBlocks c \<noteq> 0"
    by (simp add: unat_gt_0)
  then have u1: "unat (numBlocks c - 1) = n - 1"
    unfolding n_def by (rule unat_minus_one)
  have u2: "unat (numBlocks c div 2) = n div 2"
    by (simp add: unat_div n_def)
  from pos have k0: "0 < n" and k1: "n - 1 < n" and k2: "n div 2 < n"
    by (simp_all add: n_def)
  from k0 k1 k2 lv u1 u2 have i: "unat (0 :: size_t) < length v" "unat (numBlocks c - 1) < length v"
    "unat (numBlocks c div 2) < length v"
    by simp_all
  have nth: "getRateMB rnd (v ! k) = rates ! k" if "k < n" for k
  proof -
    from that lv have "map (getRateMB rnd) v ! k = getRateMB rnd (v ! k)"
      by simp
    then show ?thesis
      by (simp only: rates)
  qed
  have g0: "getRateMB rnd (v ! 0) = rates ! 0"
    using nth [OF k0] by simp
  have g1: "getRateMB rnd (v ! unat (numBlocks c - 1)) = rates ! (n - 1)"
    using nth [OF k1] by (simp add: u1)
  have g2: "getRateMB rnd (v ! unat (numBlocks c div 2)) = rates ! (n div 2)"
    using nth [OF k2] by (simp add: u2)
  define totalTime where "totalTime = foldl (\<lambda>acc r. fadd rnd acc (time r)) 0 v"
  define c2 where "c2 = print (PassSummary (passIndex c + 1) (numPasses c) readWrite
              (sumErrors v) (getRateMB rnd (v ! unat (0 :: size_t)))
              (if totalTime > 0
               then fdiv rnd (fdiv rnd (toDouble rnd (sizeBytes c)) totalTime) MB else 0)
              (getRateMB rnd (v ! unat (numBlocks c div 2))) (getRateMB rnd (v ! unat (numBlocks c - 1))))
              (c\<lparr>blockStats := v\<rparr>)"
  have c2s: "blockStats c2 = v" "numBlocks c2 = numBlocks c" "world c2 = world c"
    "passSummaries (cout c2) = passSummaries (cout c) @ [(rates ! 0, rates ! (n div 2), rates ! (n - 1))]"
    "slowWarnings (cout c2) = slowWarnings (cout c)"
    by (simp_all add: c2_def print_def passSummaries_def slowWarnings_def g0 g1 g2)
  have "length (blockStats c2) = unat (numBlocks c2)" and "sorted (map (getRateMB rnd) (blockStats c2))"
    by (simp_all add: c2s v_def len)
  from warnSlow_sorted [OF this, of "[50, 20, 10, 5]" "getRateMB rnd (v ! unat (numBlocks c div 2))"]
  obtain c' where w: "warnSlow rnd [50, 20, 10, 5] (getRateMB rnd (v ! unat (numBlocks c div 2))) c2 = Inr c'"
    and r: "slowWarnings (cout c') = slowWarnings (cout c2) @
        slowLines rnd [50, 20, 10, 5] (getRateMB rnd (v ! unat (numBlocks c div 2)))
          (map (getRateMB rnd) (blockStats c2))"
    "passSummaries (cout c') = passSummaries (cout c2)" "blockStats c' = blockStats c2"
    "world c' = world c2"
    by blast
  from w i have run: "collectStats rnd readWrite c = Inr c'"
    by (simp add: collectStats_def Let_def v_def [symmetric] totalTime_def [symmetric] c2_def
          vec_at_def bindE_def del: warnSlow.simps cong: if_cong)
  from r(3) c2s(1) have b: "blockStats c' = sort_key (getRateMB rnd) (blockStats c)"
    by (simp add: v_def)
  from r(2) c2s(4) have p: "passSummaries (cout c') = passSummaries (cout c) @
           [(sort (map (getRateMB rnd) (blockStats c)) ! 0,
             sort (map (getRateMB rnd) (blockStats c)) ! (unat (numBlocks c) div 2),
             sort (map (getRateMB rnd) (blockStats c)) ! (unat (numBlocks c) - 1))]"
    by (simp only: rates_def n_def)
  have "slowWarnings (cout c') = slowWarnings (cout c) @
        slowLines rnd [50, 20, 10, 5] (rates ! (n div 2)) rates"
    by (simp only: r(1) c2s(1,5) g2 rates)
  then have s: "slowWarnings (cout c') = slowWarnings (cout c) @
           slowLines rnd [50, 20, 10, 5]
             (sort (map (getRateMB rnd) (blockStats c)) ! (unat (numBlocks c) div 2))
             (sort (map (getRateMB rnd) (blockStats c)))"
    by (simp only: rates_def n_def)
  from r(4) c2s(3) have wd: "world c' = world c"
    by simp
  show ?thesis
    by (intro exI [of _ c'] conjI run b p s wd)
qed

lemma collectStats_Inr:
  assumes "collectStats rnd readWrite c = Inr c'"
  shows "0 < length (blockStats c)"
  using assms
  by (auto simp add: collectStats_def Let_def bindE_Inr_iff vec_at_Inr_iff simp del: warnSlow.simps)

text \<open>
  The aggregator returns on the records of a pass when there is one record per block, at
  least one block, and the per-block file (if one is asked for) can be created.
\<close>

lemma printPassStats_total:
  assumes len: "length (blockStats c) = unat (numBlocks c)" and pos: "0 < unat (numBlocks c)"
    and out: "outfile c = [] \<or> ofstream_ok sys
                (outfilename (outfile c) (if read then ''read'' else ''write'') (passIndex c) (sizeBytes c))
                (world c)"
  shows "\<exists>c'. printPassStats sys read c = Inr c'
    \<and> blockStats c' = sort_key (getRateMB (fp_round sys)) (blockStats c)
    \<and> passSummaries (cout c') = passSummaries (cout c) @
           [(sort (map (getRateMB (fp_round sys)) (blockStats c)) ! 0,
             sort (map (getRateMB (fp_round sys)) (blockStats c)) ! (unat (numBlocks c) div 2),
             sort (map (getRateMB (fp_round sys)) (blockStats c)) ! (unat (numBlocks c) - 1))]
    \<and> slowWarnings (cout c') = slowWarnings (cout c) @
           slowLines (fp_round sys) [50, 20, 10, 5]
             (sort (map (getRateMB (fp_round sys)) (blockStats c)) ! (unat (numBlocks c) div 2))
             (sort (map (getRateMB (fp_round sys)) (blockStats c)))
    \<and> world c' = world c"
proof -
  from writeOutfile_total [OF len out] obtain c1
    where w: "writeOutfile sys (if read then ''read'' else ''write'') c = Inr c1"
    by blast
  note c1 = writeOutfile_Inr [OF w]
  from len pos have "length (blockStats c1) = unat (numBlocks c1)" and "0 < unat (numBlocks c1)"
    by (simp_all only: c1)
  from collectStats_total [OF this, of "fp_round sys" "if read then ''read'' else ''write''"]
  obtain c' where s: "collectStats (fp_round sys) (if read then ''read'' else ''write'') c1 = Inr c'"
    and r: "blockStats c' = sort_key (getRateMB (fp_round sys)) (blockStats c1)"
      "passSummaries (cout c') = passSummaries (cout c1) @
           [(sort (map (getRateMB (fp_round sys)) (blockStats c1)) ! 0,
             sort (map (getRateMB (fp_round sys)) (blockStats c1)) ! (unat (numBlocks c1) div 2),
             sort (map (getRateMB (fp_round sys)) (blockStats c1)) ! (unat (numBlocks c1) - 1))]"
      "slowWarnings (cout c') = slowWarnings (cout c1) @
           slowLines (fp_round sys) [50, 20, 10, 5]
             (sort (map (getRateMB (fp_round sys)) (blockStats c1)) ! (unat (numBlocks c1) div 2))
             (sort (map (getRateMB (fp_round sys)) (blockStats c1)))"
      "world c' = world c1"
    by blast
  from w s have run: "printPassStats sys read c = Inr c'"
    by (simp add: printPassStats_def Let_def bindE_def)
  show ?thesis
    using run r by (intro exI [of _ c'] conjI) (simp_all only: c1)
qed

lemma printPassStats_Inr:
  assumes run: "printPassStats sys read c = Inr c'"
    and len: "length (blockStats c) = unat (numBlocks c)"
  shows "0 < unat (numBlocks c)"
    and "blockStats c' = sort_key (getRateMB (fp_round sys)) (blockStats c)"
    and "world c' = world c"
    and "passSummaries (cout c') = passSummaries (cout c) @
           [(sort (map (getRateMB (fp_round sys)) (blockStats c)) ! 0,
             sort (map (getRateMB (fp_round sys)) (blockStats c)) ! (unat (numBlocks c) div 2),
             sort (map (getRateMB (fp_round sys)) (blockStats c)) ! (unat (numBlocks c) - 1))]"
    and "slowWarnings (cout c') = slowWarnings (cout c) @
           slowLines (fp_round sys) [50, 20, 10, 5]
             (sort (map (getRateMB (fp_round sys)) (blockStats c)) ! (unat (numBlocks c) div 2))
             (sort (map (getRateMB (fp_round sys)) (blockStats c)))"
proof -
  from run obtain c1 where w: "writeOutfile sys (if read then ''read'' else ''write'') c = Inr c1"
    and s: "collectStats (fp_round sys) (if read then ''read'' else ''write'') c1 = Inr c'"
    unfolding printPassStats_def Let_def bindE_Inr_iff by blast
  note c1 = writeOutfile_Inr [OF w]
  from collectStats_Inr [OF s] len have pos: "0 < unat (numBlocks c)"
    by (simp add: c1)
  from len pos have "length (blockStats c1) = unat (numBlocks c1)" and "0 < unat (numBlocks c1)"
    by (simp_all only: c1)
  from collectStats_total [OF this, of "fp_round sys" "if read then ''read'' else ''write''"] s
  have r: "blockStats c' = sort_key (getRateMB (fp_round sys)) (blockStats c1)"
      "passSummaries (cout c') = passSummaries (cout c1) @
           [(sort (map (getRateMB (fp_round sys)) (blockStats c1)) ! 0,
             sort (map (getRateMB (fp_round sys)) (blockStats c1)) ! (unat (numBlocks c1) div 2),
             sort (map (getRateMB (fp_round sys)) (blockStats c1)) ! (unat (numBlocks c1) - 1))]"
      "slowWarnings (cout c') = slowWarnings (cout c1) @
           slowLines (fp_round sys) [50, 20, 10, 5]
             (sort (map (getRateMB (fp_round sys)) (blockStats c1)) ! (unat (numBlocks c1) div 2))
             (sort (map (getRateMB (fp_round sys)) (blockStats c1)))"
      "world c' = world c1"
    by auto
  from pos show "0 < unat (numBlocks c)" .
  from r(1) show "blockStats c' = sort_key (getRateMB (fp_round sys)) (blockStats c)"
    by (simp only: c1)
  from r(4) show "world c' = world c"
    by (simp only: c1)
  from r(2) show "passSummaries (cout c') = passSummaries (cout c) @
           [(sort (map (getRateMB (fp_round sys)) (blockStats c)) ! 0,
             sort (map (getRateMB (fp_round sys)) (blockStats c)) ! (unat (numBlocks c) div 2),
             sort (map (getRateMB (fp_round sys)) (blockStats c)) ! (unat (numBlocks c) - 1))]"
    by (simp only: c1)
  from r(3) show "slowWarnings (cout c') = slowWarnings (cout c) @
           slowLines (fp_round sys) [50, 20, 10, 5]
             (sort (map (getRateMB (fp_round sys)) (blockStats c)) ! (unat (numBlocks c) div 2))
             (sort (map (getRateMB (fp_round sys)) (blockStats c)))"
    by (simp only: c1)
qed

text \<open>
  IEEE rounding, evaluated: when \<open>2\<^sup>5\<^sup>2 \<le> |x| 2\<^sup>k < 2\<^sup>5\<^sup>3\<close>, the result is the multiple of
  \<open>2\<^sup>-\<^sup>k\<close> nearest to \<open>x\<close>.
\<close>

lemma round53_eval:
  assumes lo: "2 ^ 52 \<le> \<bar>x\<bar> * 2 ^ k" and hi: "\<bar>x\<bar> * 2 ^ k < 2 ^ 53"
    and m: "roundEven (x * 2 ^ k) = m"
  shows "round53 x = of_int m / 2 ^ k"
proof -
  from lo have nz: "x \<noteq> 0"
    by auto
  then have pos: "0 < \<bar>x\<bar>"
    by simp
  define K where "K = 52 - int k"
  have p: "(2 :: real) powi K = 2 ^ 52 / 2 ^ k"
    unfolding K_def by (simp add: power_int_diff)
  have p1: "(2 :: real) powi (K + 1) = 2 ^ 53 / 2 ^ k"
  proof -
    have "K + 1 = 53 - int k"
      by (simp add: K_def)
    then show ?thesis
      by (simp add: power_int_diff)
  qed
  from lo have a: "(2 :: real) powi K \<le> \<bar>x\<bar>"
    unfolding p by (simp add: field_simps)
  from hi have b: "\<bar>x\<bar> < (2 :: real) powi (K + 1)"
    unfolding p1 by (simp add: field_simps)
  have q: "(2 :: real) powr real_of_int n = 2 powi n" for n
    by (rule powr_real_of_int') simp_all
  have "1 < (2 :: real)"
    by simp
  from pos this have "\<lfloor>log 2 \<bar>x\<bar>\<rfloor> = K
      \<longleftrightarrow> 2 powr real_of_int K \<le> \<bar>x\<bar> \<and> \<bar>x\<bar> < 2 powr real_of_int (K + 1)"
    by (rule floor_log_eq_powr_iff)
  with a b have "\<lfloor>log 2 \<bar>x\<bar>\<rfloor> = K"
    by (simp only: q)
  then have e: "\<lfloor>log 2 \<bar>x\<bar>\<rfloor> - 52 = - int k"
    by (simp add: K_def)
  have s: "(2 :: real) powi (- int k) = 1 / 2 ^ k"
    by (simp add: power_int_minus_divide)
  from m show ?thesis
    using nz by (simp add: round53_def e s Let_def)
qed

text \<open>
  The rates of four blocks of 4 MiB read in 11, 11, 55 and 11 seconds, and the warnings for
  them, in IEEE arithmetic. In exact arithmetic the rate of the slow block, 4/55, is the
  20% limit, 4/11 * 20 / 100, and so not below it; the doubles differ in the last bit, the
  limit being the larger, and the 20% warning is printed.
\<close>

lemma slow_rates:
  "map (getRateMB round53) slowStats =
     [6550690367084358 / 2 ^ 54, 6550690367084358 / 2 ^ 54,
      5240552293667486 / 2 ^ 56, 6550690367084358 / 2 ^ 54]"
proof -
  define q11 :: real where "q11 = 6550690367084358 / 2 ^ 34"
  define q55 :: real where "q55 = 5240552293667486 / 2 ^ 36"
  have conv: "toDouble round53 4194304 = 4194304"
    unfolding toDouble_def
    using round53_eval [of "real (unat (4194304 :: size_t))" 30 4503599627370496] by (simp add: roundEven_def Let_def)
  have a11: "fdiv round53 4194304 11 = q11"
    unfolding fdiv_def q11_def
    using round53_eval [of "4194304 / 11" 34 6550690367084358] by (simp add: roundEven_def Let_def)
  have b11: "fdiv round53 q11 MB = 6550690367084358 / 2 ^ 54"
    unfolding fdiv_def q11_def MB_def
    using round53_eval [of "6550690367084358 / 2 ^ 34 / (1024 * 1024)" 54 6550690367084358] by (simp add: roundEven_def Let_def)
  have a55: "fdiv round53 4194304 55 = q55"
    unfolding fdiv_def q55_def
    using round53_eval [of "4194304 / 55" 36 5240552293667486] by (simp add: roundEven_def Let_def)
  have b55: "fdiv round53 q55 MB = 5240552293667486 / 2 ^ 56"
    unfolding fdiv_def q55_def MB_def
    using round53_eval [of "5240552293667486 / 2 ^ 36 / (1024 * 1024)" 56 5240552293667486] by (simp add: roundEven_def Let_def)
  show ?thesis
    by (simp add: slowStats_def getRateMB_def conv a11 b11 a55 b55)
qed

lemma slow_limits:
  fixes r11 r55 :: real
  defines "r11 \<equiv> 6550690367084358 / 2 ^ 54" and "r55 \<equiv> 5240552293667486 / 2 ^ 56"
  shows "slowLines round53 [50, 20, 10, 5] r11 [r11, r11, r55, r11] = [(50, 1), (20, 1)]"
proof -
  define p50 :: real where "p50 = 5117726849284655 / 2 ^ 48"
  define l50 :: real where "l50 = 6550690367084358 / 2 ^ 55"
  define p20 :: real where "p20 = 8188362958855448 / 2 ^ 50"
  define l20 :: real where "l20 = 5240552293667487 / 2 ^ 56"
  define p10 :: real where "p10 = 8188362958855448 / 2 ^ 51"
  define l10 :: real where "l10 = 5240552293667487 / 2 ^ 57"
  define p5 :: real where "p5 = 8188362958855448 / 2 ^ 52"
  define l5 :: real where "l5 = 5240552293667487 / 2 ^ 58"
  have m50: "fmul round53 r11 50 = p50"
    unfolding fmul_def r11_def p50_def
    using round53_eval [of "6550690367084358 / 2 ^ 54 * 50" 48 5117726849284655] by (simp add: roundEven_def Let_def)
  have d50: "fdiv round53 p50 100 = l50"
    unfolding fdiv_def p50_def l50_def
    using round53_eval [of "5117726849284655 / 2 ^ 48 / 100" 55 6550690367084358] by (simp add: roundEven_def Let_def)
  have m20: "fmul round53 r11 20 = p20"
    unfolding fmul_def r11_def p20_def
    using round53_eval [of "6550690367084358 / 2 ^ 54 * 20" 50 8188362958855448] by (simp add: roundEven_def Let_def)
  have d20: "fdiv round53 p20 100 = l20"
    unfolding fdiv_def p20_def l20_def
    using round53_eval [of "8188362958855448 / 2 ^ 50 / 100" 56 5240552293667487] by (simp add: roundEven_def Let_def)
  have m10: "fmul round53 r11 10 = p10"
    unfolding fmul_def r11_def p10_def
    using round53_eval [of "6550690367084358 / 2 ^ 54 * 10" 51 8188362958855448] by (simp add: roundEven_def Let_def)
  have d10: "fdiv round53 p10 100 = l10"
    unfolding fdiv_def p10_def l10_def
    using round53_eval [of "8188362958855448 / 2 ^ 51 / 100" 57 5240552293667487] by (simp add: roundEven_def Let_def)
  have m5: "fmul round53 r11 5 = p5"
    unfolding fmul_def r11_def p5_def
    using round53_eval [of "6550690367084358 / 2 ^ 54 * 5" 52 8188362958855448] by (simp add: roundEven_def Let_def)
  have d5: "fdiv round53 p5 100 = l5"
    unfolding fdiv_def p5_def l5_def
    using round53_eval [of "8188362958855448 / 2 ^ 52 / 100" 58 5240552293667487] by (simp add: roundEven_def Let_def)
  have c: "r55 < l50" "\<not> r11 < l50" "r55 < l20" "\<not> r11 < l20"
    "\<not> r55 < l10" "\<not> r11 < l10" "\<not> r55 < l5" "\<not> r11 < l5"
    by (simp_all add: r11_def r55_def l50_def l20_def l10_def l5_def)
  show ?thesis
    by (simp add: slowLines_def m50 d50 m20 d20 m10 d10 m5 d5 c)
qed

lemma slow_limits_exact:
  "slowLines (\<lambda>x. x) [50, 20, 10, 5] (4 / 11) [4 / 11, 4 / 11, 4 / 55, 4 / 11] = [(50, 1)]"
  by (simp add: slowLines_def fdiv_def fmul_def)

text \<open>
  The example of the specification in IEEE arithmetic: five blocks with the rates 30, 10,
  50, 20 and 40 MB/s, which, like the limits 15, 6, 3 and 1.5, are doubles.
\<close>

lemma example_rates: "map (getRateMB round53) exampleStats = [30, 10, 50, 20, 40]"
proof -
  have c0: "toDouble round53 31457280 = 31457280"
    unfolding toDouble_def
    using round53_eval [of "real (unat (31457280 :: size_t))" 28 8444249301319680] by (simp add: roundEven_def Let_def)
  have a0: "fdiv round53 31457280 1 = 31457280"
    unfolding fdiv_def
    using round53_eval [of "31457280 / 1" 28 8444249301319680] by (simp add: roundEven_def Let_def)
  have b0: "fdiv round53 31457280 MB = 30"
    unfolding fdiv_def MB_def
    using round53_eval [of "31457280 / (1024 * 1024)" 48 8444249301319680] by (simp add: roundEven_def Let_def)
  have c1: "toDouble round53 10485760 = 10485760"
    unfolding toDouble_def
    using round53_eval [of "real (unat (10485760 :: size_t))" 29 5629499534213120] by (simp add: roundEven_def Let_def)
  have a1: "fdiv round53 10485760 1 = 10485760"
    unfolding fdiv_def
    using round53_eval [of "10485760 / 1" 29 5629499534213120] by (simp add: roundEven_def Let_def)
  have b1: "fdiv round53 10485760 MB = 10"
    unfolding fdiv_def MB_def
    using round53_eval [of "10485760 / (1024 * 1024)" 49 5629499534213120] by (simp add: roundEven_def Let_def)
  have c2: "toDouble round53 52428800 = 52428800"
    unfolding toDouble_def
    using round53_eval [of "real (unat (52428800 :: size_t))" 27 7036874417766400] by (simp add: roundEven_def Let_def)
  have a2: "fdiv round53 52428800 1 = 52428800"
    unfolding fdiv_def
    using round53_eval [of "52428800 / 1" 27 7036874417766400] by (simp add: roundEven_def Let_def)
  have b2: "fdiv round53 52428800 MB = 50"
    unfolding fdiv_def MB_def
    using round53_eval [of "52428800 / (1024 * 1024)" 47 7036874417766400] by (simp add: roundEven_def Let_def)
  have c3: "toDouble round53 20971520 = 20971520"
    unfolding toDouble_def
    using round53_eval [of "real (unat (20971520 :: size_t))" 28 5629499534213120] by (simp add: roundEven_def Let_def)
  have a3: "fdiv round53 20971520 1 = 20971520"
    unfolding fdiv_def
    using round53_eval [of "20971520 / 1" 28 5629499534213120] by (simp add: roundEven_def Let_def)
  have b3: "fdiv round53 20971520 MB = 20"
    unfolding fdiv_def MB_def
    using round53_eval [of "20971520 / (1024 * 1024)" 48 5629499534213120] by (simp add: roundEven_def Let_def)
  have c4: "toDouble round53 41943040 = 41943040"
    unfolding toDouble_def
    using round53_eval [of "real (unat (41943040 :: size_t))" 27 5629499534213120] by (simp add: roundEven_def Let_def)
  have a4: "fdiv round53 41943040 1 = 41943040"
    unfolding fdiv_def
    using round53_eval [of "41943040 / 1" 27 5629499534213120] by (simp add: roundEven_def Let_def)
  have b4: "fdiv round53 41943040 MB = 40"
    unfolding fdiv_def MB_def
    using round53_eval [of "41943040 / (1024 * 1024)" 47 5629499534213120] by (simp add: roundEven_def Let_def)
  show ?thesis
    by (simp add: exampleStats_def getRateMB_def c0 a0 b0 c1 a1 b1 c2 a2 b2 c3 a3 b3 c4 a4 b4)
qed

lemma example_limits:
  "slowLines round53 [50, 20, 10, 5] 30 [30, 10, 50, 20, 40] = [(50, 1)]"
proof -
  have m50: "fmul round53 30 50 = 1500"
    unfolding fmul_def
    using round53_eval [of "30 * 50" 42 6597069766656000] by (simp add: roundEven_def Let_def)
  have d50: "fdiv round53 1500 100 = 15"
    unfolding fdiv_def
    using round53_eval [of "1500 / 100" 49 8444249301319680] by (simp add: roundEven_def Let_def)
  have m20: "fmul round53 30 20 = 600"
    unfolding fmul_def
    using round53_eval [of "30 * 20" 43 5277655813324800] by (simp add: roundEven_def Let_def)
  have d20: "fdiv round53 600 100 = 6"
    unfolding fdiv_def
    using round53_eval [of "600 / 100" 50 6755399441055744] by (simp add: roundEven_def Let_def)
  have m10: "fmul round53 30 10 = 300"
    unfolding fmul_def
    using round53_eval [of "30 * 10" 44 5277655813324800] by (simp add: roundEven_def Let_def)
  have d10: "fdiv round53 300 100 = 3"
    unfolding fdiv_def
    using round53_eval [of "300 / 100" 51 6755399441055744] by (simp add: roundEven_def Let_def)
  have m5: "fmul round53 30 5 = 150"
    unfolding fmul_def
    using round53_eval [of "30 * 5" 45 5277655813324800] by (simp add: roundEven_def Let_def)
  have d5: "fdiv round53 150 100 = 3 / 2"
    unfolding fdiv_def
    using round53_eval [of "150 / 100" 52 6755399441055744] by (simp add: roundEven_def Let_def)
  show ?thesis
    by (simp add: slowLines_def m50 d50 m20 d20 m10 d10 m5 d5)
qed

lemma example_hyps:
  "length (blockStats (statsChecker 8 exampleStats)) = unat (numBlocks (statsChecker 8 exampleStats))"
  "0 < unat (numBlocks (statsChecker 8 exampleStats))"
  "outfile (statsChecker 8 exampleStats) = [] \<or> ofstream_ok (ieee (simSys 0 8 []))
           (outfilename (outfile (statsChecker 8 exampleStats)) (if True then ''read'' else ''write'')
              (passIndex (statsChecker 8 exampleStats)) (sizeBytes (statsChecker 8 exampleStats)))
           (world (statsChecker 8 exampleStats))"
  by (simp_all add: statsChecker_def exampleStats_def ieee_def simSys_def)

lemma slow_hyps:
  "length (blockStats (statsChecker 4194304 slowStats)) = unat (numBlocks (statsChecker 4194304 slowStats))"
  "0 < unat (numBlocks (statsChecker 4194304 slowStats))"
  "outfile (statsChecker 4194304 slowStats) = [] \<or> ofstream_ok (ieee (simSys 0 8 []))
           (outfilename (outfile (statsChecker 4194304 slowStats)) (if True then ''read'' else ''write'')
              (passIndex (statsChecker 4194304 slowStats)) (sizeBytes (statsChecker 4194304 slowStats)))
           (world (statsChecker 4194304 slowStats))"
  by (simp_all add: statsChecker_def slowStats_def ieee_def simSys_def)

text \<open>
  Claim C7. On the records of a pass (one per block, at least one block, and the per-block
  file can be created if one is asked for) the aggregator returns, and the summary it
  prints has \<open>min = rate[0]\<close>, \<open>max = rate[numBlocks - 1]\<close> and \<open>med = rate[numBlocks div 2]\<close>
  (integer division, so the upper middle for even counts) of the rates sorted ascending,
  whichever arrangement of the records sorted by rate is taken. The rates are the doubles
  \<^verbatim>\<open>getRateMB()\<close> returns. For the rates 10, 20, 30, 40, 50: min 10, med 30, max 50.
\<close>

theorem pass_summary_min_med_max:
  assumes "length (blockStats c) = unat (numBlocks c)" and "0 < unat (numBlocks c)"
    and "outfile c = [] \<or> ofstream_ok sys
           (outfilename (outfile c) (if read then ''read'' else ''write'') (passIndex c) (sizeBytes c))
           (world c)"
  shows "\<exists>c' mn med mx.
    printPassStats sys read c = Inr c'
    \<and> passSummaries (cout c') = passSummaries (cout c) @ [(mn, med, mx)]
    \<and> mn = sort (map (getRateMB (fp_round sys)) (blockStats c)) ! 0
    \<and> mx = sort (map (getRateMB (fp_round sys)) (blockStats c)) ! (unat (numBlocks c) - 1)
    \<and> med = sort (map (getRateMB (fp_round sys)) (blockStats c)) ! (unat (numBlocks c) div 2)
    \<and> (\<forall>ys. mset ys = mset (blockStats c) \<and> sorted (map (getRateMB (fp_round sys)) ys) \<longrightarrow>
          mn = getRateMB (fp_round sys) (ys ! 0)
          \<and> mx = getRateMB (fp_round sys) (ys ! (unat (numBlocks c) - 1))
          \<and> med = getRateMB (fp_round sys) (ys ! (unat (numBlocks c) div 2)))"
proof -
  define rnd where "rnd = fp_round sys"
  define rates where "rates = sort (map (getRateMB rnd) (blockStats c))"
  define n where "n = unat (numBlocks c)"
  from printPassStats_total [OF assms] obtain c' where run: "printPassStats sys read c = Inr c'"
    and p: "passSummaries (cout c') = passSummaries (cout c) @
              [(rates ! 0, rates ! (n div 2), rates ! (n - 1))]"
    unfolding rates_def n_def rnd_def by blast
  have any: "rates ! 0 = getRateMB rnd (ys ! 0) \<and> rates ! (n - 1) = getRateMB rnd (ys ! (n - 1))
      \<and> rates ! (n div 2) = getRateMB rnd (ys ! (n div 2))"
    if ys: "mset ys = mset (blockStats c)" "sorted (map (getRateMB rnd) ys)" for ys
  proof -
    from ys have m: "map (getRateMB rnd) ys = rates"
      unfolding rates_def by (rule sorted_rates_unique)
    from ys(1) have "size (mset ys) = size (mset (blockStats c))"
      by (rule arg_cong)
    then have l: "length ys = n"
      by (simp add: n_def assms(1))
    from assms(2) have "0 < n" "n - 1 < n" "n div 2 < n"
      by (simp_all add: n_def)
    with l have "map (getRateMB rnd) ys ! 0 = getRateMB rnd (ys ! 0)"
      "map (getRateMB rnd) ys ! (n - 1) = getRateMB rnd (ys ! (n - 1))"
      "map (getRateMB rnd) ys ! (n div 2) = getRateMB rnd (ys ! (n div 2))"
      by simp_all
    then show ?thesis
      by (simp only: m)
  qed
  from run p any show ?thesis
    unfolding rates_def n_def rnd_def by blast
qed

text \<open>
  The example of the specification, and the four blocks of 4 MiB read in 11, 11, 55 and 11
  seconds, an even count: the median is the entry 2 of the sorted rates, the upper middle.
\<close>

theorem pass_summary_min_med_max_witness:
  "(\<exists>c'. printPassStats (ieee (simSys 0 8 [])) True (statsChecker 8 exampleStats) = Inr c'
      \<and> map (getRateMB round53) exampleStats = [30, 10, 50, 20, 40]
      \<and> passSummaries (cout c') = [(10, 30, 50)])
   \<and> (\<exists>c'. printPassStats (ieee (simSys 0 8 [])) True (statsChecker 4194304 slowStats) = Inr c'
      \<and> map (getRateMB round53) slowStats =
          [6550690367084358 / 2 ^ 54, 6550690367084358 / 2 ^ 54,
           5240552293667486 / 2 ^ 56, 6550690367084358 / 2 ^ 54]
      \<and> passSummaries (cout c') =
          [(5240552293667486 / 2 ^ 56, 6550690367084358 / 2 ^ 54, 6550690367084358 / 2 ^ 54)])"
proof -
  have rnd: "fp_round (ieee (simSys 0 8 [])) = round53"
    by (simp add: ieee_def)
  have st: "blockStats (statsChecker 8 exampleStats) = exampleStats"
    "unat (numBlocks (statsChecker 8 exampleStats)) = 5"
    "cout (statsChecker 8 exampleStats) = []"
    "blockStats (statsChecker 4194304 slowStats) = slowStats"
    "unat (numBlocks (statsChecker 4194304 slowStats)) = 4"
    "cout (statsChecker 4194304 slowStats) = []"
    by (simp_all add: statsChecker_def exampleStats_def slowStats_def)
  from pass_summary_min_med_max [OF example_hyps] obtain c' mn med mx where
    run: "printPassStats (ieee (simSys 0 8 [])) True (statsChecker 8 exampleStats) = Inr c'"
    and p: "passSummaries (cout c') = passSummaries (cout (statsChecker 8 exampleStats)) @ [(mn, med, mx)]"
    and v: "mn = sort (map (getRateMB (fp_round (ieee (simSys 0 8 [])))) (blockStats (statsChecker 8 exampleStats))) ! 0"
      "mx = sort (map (getRateMB (fp_round (ieee (simSys 0 8 [])))) (blockStats (statsChecker 8 exampleStats)))
              ! (unat (numBlocks (statsChecker 8 exampleStats)) - 1)"
      "med = sort (map (getRateMB (fp_round (ieee (simSys 0 8 [])))) (blockStats (statsChecker 8 exampleStats)))
              ! (unat (numBlocks (statsChecker 8 exampleStats)) div 2)"
    by blast
  from v have "mn = 10 \<and> mx = 50 \<and> med = 30"
    by (simp add: rnd st example_rates)
  with p have "passSummaries (cout c') = [(10, 30, 50)]"
    by (simp add: st passSummaries_def)
  with run example_rates have a: "\<exists>c'. printPassStats (ieee (simSys 0 8 [])) True (statsChecker 8 exampleStats) = Inr c'
      \<and> map (getRateMB round53) exampleStats = [30, 10, 50, 20, 40]
      \<and> passSummaries (cout c') = [(10, 30, 50)]"
    by (intro exI [of _ c'] conjI)
  define r11 :: real where "r11 = 6550690367084358 / 2 ^ 54"
  define r55 :: real where "r55 = 5240552293667486 / 2 ^ 56"
  have rates: "map (getRateMB round53) slowStats = [r11, r11, r55, r11]"
    unfolding r11_def r55_def by (rule slow_rates)
  have "r55 < r11"
    by (simp add: r11_def r55_def)
  then have srt: "sort [r11, r11, r55, r11] = [r55, r11, r11, r11]"
    by simp
  from pass_summary_min_med_max [OF slow_hyps] obtain d' mn' med' mx' where
    run': "printPassStats (ieee (simSys 0 8 [])) True (statsChecker 4194304 slowStats) = Inr d'"
    and p': "passSummaries (cout d') = passSummaries (cout (statsChecker 4194304 slowStats)) @ [(mn', med', mx')]"
    and v': "mn' = sort (map (getRateMB (fp_round (ieee (simSys 0 8 [])))) (blockStats (statsChecker 4194304 slowStats))) ! 0"
      "mx' = sort (map (getRateMB (fp_round (ieee (simSys 0 8 [])))) (blockStats (statsChecker 4194304 slowStats)))
              ! (unat (numBlocks (statsChecker 4194304 slowStats)) - 1)"
      "med' = sort (map (getRateMB (fp_round (ieee (simSys 0 8 [])))) (blockStats (statsChecker 4194304 slowStats)))
              ! (unat (numBlocks (statsChecker 4194304 slowStats)) div 2)"
    by blast
  from v' have "mn' = [r55, r11, r11, r11] ! 0" "mx' = [r55, r11, r11, r11] ! (4 - 1)"
    "med' = [r55, r11, r11, r11] ! (4 div 2)"
    by (simp_all only: rnd st rates srt)
  then have "mn' = r55 \<and> mx' = r11 \<and> med' = r11"
    by simp
  with p' have "passSummaries (cout d') = [(r55, r11, r11)]"
    by (simp add: st passSummaries_def)
  with run' rates have b: "\<exists>c'. printPassStats (ieee (simSys 0 8 [])) True (statsChecker 4194304 slowStats) = Inr c'
      \<and> map (getRateMB round53) slowStats = [r11, r11, r55, r11]
      \<and> passSummaries (cout c') = [(r55, r11, r11)]"
    by (intro exI [of _ d'] conjI)
  from a b show ?thesis
    unfolding r11_def r55_def by (rule conjI)
qed

text \<open>
  Claim C8. On the records of a pass (as for C7) the aggregator returns, and for each
  percentage of 50, 20, 10, 5 on its own, the scan of the sorted records from the start up
  to the first record at or above the limit counts the blocks whose rate is strictly below
  the limit, and a warning with the percentage and the count is printed exactly when the
  count is not 0 (\<open>slowLines\<close>). Rates and limit are the doubles the program compares: the
  limit is \<^verbatim>\<open>med * percent / 100.0\<close>, the product rounded and then the quotient rounded.
  For the rates 10, 20, 30, 40, 50 only the 50% warning appears, with count 1; for four
  blocks of 4 MiB read in 11, 11, 55 and 11 seconds, in IEEE arithmetic, the 50% and the
  20% warnings appear, with count 1 each.
\<close>

theorem slow_block_warnings:
  assumes "length (blockStats c) = unat (numBlocks c)" and "0 < unat (numBlocks c)"
    and "outfile c = [] \<or> ofstream_ok sys
           (outfilename (outfile c) (if read then ''read'' else ''write'') (passIndex c) (sizeBytes c))
           (world c)"
  shows "\<exists>c'. printPassStats sys read c = Inr c'
    \<and> slowWarnings (cout c') = slowWarnings (cout c) @
        slowLines (fp_round sys) [50, 20, 10, 5]
          (sort (map (getRateMB (fp_round sys)) (blockStats c)) ! (unat (numBlocks c) div 2))
          (map (getRateMB (fp_round sys)) (blockStats c))"
proof -
  from printPassStats_total [OF assms] obtain c' where "printPassStats sys read c = Inr c'"
    and "slowWarnings (cout c') = slowWarnings (cout c) @
           slowLines (fp_round sys) [50, 20, 10, 5]
             (sort (map (getRateMB (fp_round sys)) (blockStats c)) ! (unat (numBlocks c) div 2))
             (sort (map (getRateMB (fp_round sys)) (blockStats c)))"
    by blast
  then show ?thesis
    by (simp only: slowLines_sort) blast
qed

theorem slow_block_warnings_witness:
  "(\<exists>c'. printPassStats (ieee (simSys 0 8 [])) True (statsChecker 8 exampleStats) = Inr c'
      \<and> map (getRateMB round53) exampleStats = [30, 10, 50, 20, 40]
      \<and> slowWarnings (cout c') = [(50, 1)])
   \<and> (\<exists>c'. printPassStats (ieee (simSys 0 8 [])) True (statsChecker 4194304 slowStats) = Inr c'
      \<and> map (getRateMB round53) slowStats =
          [6550690367084358 / 2 ^ 54, 6550690367084358 / 2 ^ 54,
           5240552293667486 / 2 ^ 56, 6550690367084358 / 2 ^ 54]
      \<and> slowWarnings (cout c') = [(50, 1), (20, 1)])"
proof -
  have rnd: "fp_round (ieee (simSys 0 8 [])) = round53"
    by (simp add: ieee_def)
  have st: "blockStats (statsChecker 8 exampleStats) = exampleStats"
    "unat (numBlocks (statsChecker 8 exampleStats)) div 2 = 2"
    "cout (statsChecker 8 exampleStats) = []"
    "blockStats (statsChecker 4194304 slowStats) = slowStats"
    "unat (numBlocks (statsChecker 4194304 slowStats)) div 2 = 2"
    "cout (statsChecker 4194304 slowStats) = []"
    by (simp_all add: statsChecker_def exampleStats_def slowStats_def)
  have srt0: "sort [30, 10, 50, 20, 40 :: real] ! 2 = 30"
    by simp
  from slow_block_warnings [OF example_hyps] obtain c' where
    run: "printPassStats (ieee (simSys 0 8 [])) True (statsChecker 8 exampleStats) = Inr c'"
    and w: "slowWarnings (cout c') = slowWarnings (cout (statsChecker 8 exampleStats)) @
        slowLines (fp_round (ieee (simSys 0 8 []))) [50, 20, 10, 5]
          (sort (map (getRateMB (fp_round (ieee (simSys 0 8 [])))) (blockStats (statsChecker 8 exampleStats)))
             ! (unat (numBlocks (statsChecker 8 exampleStats)) div 2))
          (map (getRateMB (fp_round (ieee (simSys 0 8 [])))) (blockStats (statsChecker 8 exampleStats)))"
    by blast
  from w have "slowWarnings (cout c') = slowWarnings [] @ slowLines round53 [50, 20, 10, 5]
      30 [30, 10, 50, 20, 40]"
    by (simp only: rnd st example_rates srt0)
  then have "slowWarnings (cout c') = [(50, 1)]"
    by (simp add: example_limits slowWarnings_def)
  with run example_rates have a: "\<exists>c'. printPassStats (ieee (simSys 0 8 [])) True (statsChecker 8 exampleStats) = Inr c'
      \<and> map (getRateMB round53) exampleStats = [30, 10, 50, 20, 40]
      \<and> slowWarnings (cout c') = [(50, 1)]"
    by (intro exI [of _ c'] conjI)
  define r11 :: real where "r11 = 6550690367084358 / 2 ^ 54"
  define r55 :: real where "r55 = 5240552293667486 / 2 ^ 56"
  have rates: "map (getRateMB round53) slowStats = [r11, r11, r55, r11]"
    unfolding r11_def r55_def by (rule slow_rates)
  have "r55 < r11"
    by (simp add: r11_def r55_def)
  then have srt: "sort [r11, r11, r55, r11] = [r55, r11, r11, r11]"
    by simp
  have lines: "slowLines round53 [50, 20, 10, 5] r11 [r11, r11, r55, r11] = [(50, 1), (20, 1)]"
    unfolding r11_def r55_def by (rule slow_limits)
  from slow_block_warnings [OF slow_hyps] obtain d' where
    run': "printPassStats (ieee (simSys 0 8 [])) True (statsChecker 4194304 slowStats) = Inr d'"
    and w': "slowWarnings (cout d') = slowWarnings (cout (statsChecker 4194304 slowStats)) @
        slowLines (fp_round (ieee (simSys 0 8 []))) [50, 20, 10, 5]
          (sort (map (getRateMB (fp_round (ieee (simSys 0 8 [])))) (blockStats (statsChecker 4194304 slowStats)))
             ! (unat (numBlocks (statsChecker 4194304 slowStats)) div 2))
          (map (getRateMB (fp_round (ieee (simSys 0 8 [])))) (blockStats (statsChecker 4194304 slowStats)))"
    by blast
  from w' have "slowWarnings (cout d') = slowWarnings [] @ slowLines round53 [50, 20, 10, 5]
      ([r55, r11, r11, r11] ! 2) [r11, r11, r55, r11]"
    by (simp only: rnd st rates srt)
  then have "slowWarnings (cout d') = [(50, 1), (20, 1)]"
    by (simp add: lines slowWarnings_def)
  with run' rates have b: "\<exists>c'. printPassStats (ieee (simSys 0 8 [])) True (statsChecker 4194304 slowStats) = Inr c'
      \<and> map (getRateMB round53) slowStats = [r11, r11, r55, r11]
      \<and> slowWarnings (cout c') = [(50, 1), (20, 1)]"
    by (intro exI [of _ d'] conjI)
  from a b show ?thesis
    unfolding r11_def r55_def by (rule conjI)
qed

subsection \<open>Pass executor: what is recorded for a block\<close>

lemma printProgress_frame:
  assumes "printProgress sys i c = Inr c'"
  shows "blockStats c' = blockStats c" and "totalRead c' = totalRead c"
    and "totalWrite c' = totalWrite c" and "sameSetup c c'"
    and "world c' = snd (getTimeSec sys (world c))"
    and "passSummaries (cout c') = passSummaries (cout c)"
    and "dataErrors (cout c') = dataErrors (cout c)"
    and "slowWarnings (cout c') = slowWarnings (cout c)"
proof -
  define w where "w = snd (getTimeSec sys (world c))"
  from assms have "c' = c\<lparr>world := w\<rparr>
      \<or> (\<exists>p t. c' = (print (ProgressLine p) (c\<lparr>world := w\<rparr>))\<lparr>lastProgressTime := t\<rparr>)"
    by (auto simp add: printProgress_def Let_def bindE_Inr_iff w_def split: prod.splits if_splits)
  then show "blockStats c' = blockStats c" and "totalRead c' = totalRead c"
    and "totalWrite c' = totalWrite c" and "sameSetup c c'"
    and "world c' = snd (getTimeSec sys (world c))"
    and "passSummaries (cout c') = passSummaries (cout c)"
    and "dataErrors (cout c') = dataErrors (cout c)"
    and "slowWarnings (cout c') = slowWarnings (cout c)"
    by (auto simp add: print_def passSummaries_def dataErrors_def slowWarnings_def sameSetup_def w_def)
qed

lemma printProgress_total:
  assumes "progressSafe c"
  shows "\<exists>c'. printProgress sys i c = Inr c'"
proof -
  obtain now w where t: "getTimeSec sys (world c) = (now, w)"
    by (cases "getTimeSec sys (world c)")
  have "\<exists>r. progressTotals (fp_round sys) (c\<lparr>world := w\<rparr>) = Inr r"
    using assms
    by (auto simp add: progressTotals_def progressSafe_def Let_def vec_at_def bindE_def not_less)
  then obtain prefix tr tw
    where r: "progressTotals (fp_round sys) (c\<lparr>world := w\<rparr>) = Inr (prefix, tr, tw)"
    by auto
  show ?thesis
    by (simp add: printProgress_def t r Let_def bindE_def)
qed

lemma addTransfer_Inr:
  assumes "addTransfer rnd rd i e a c = Inr c'"
  shows "unat i < length (blockStats c)"
    and "blockStats c' = (blockStats c)[unat i := (blockStats c ! unat i)
           \<lparr>time := fadd rnd (time (blockStats c ! unat i)) e, bytes := bytes (blockStats c ! unat i) + a\<rparr>]"
    and "totalRead c' = (if rd then (totalRead c)\<lparr>time := fadd rnd (time (totalRead c)) e,
                                                 bytes := bytes (totalRead c) + a\<rparr> else totalRead c)"
    and "totalWrite c' = (if rd then totalWrite c else (totalWrite c)\<lparr>time := fadd rnd (time (totalWrite c)) e,
                                                 bytes := bytes (totalWrite c) + a\<rparr>)"
    and "sameSetup c c'" and "world c' = world c" and "cout c' = cout c"
  using assms
  by (auto simp add: addTransfer_def vec_modify_def bindE_def sameSetup_def split: if_splits)

lemma countError_Inr:
  assumes "countError rd i c = Inr c'"
  shows "unat i < length (blockStats c)"
    and "blockStats c' = (blockStats c)[unat i := (blockStats c ! unat i)
           \<lparr>errors := errors (blockStats c ! unat i) + 1\<rparr>]"
    and "totalRead c' = (if rd then (totalRead c)\<lparr>errors := errors (totalRead c) + 1\<rparr> else totalRead c)"
    and "totalWrite c' = (if rd then totalWrite c else (totalWrite c)\<lparr>errors := errors (totalWrite c) + 1\<rparr>)"
    and "sameSetup c c'" and "world c' = world c" and "cout c' = cout c"
  using assms
  by (auto simp add: countError_def vec_modify_def bindE_def sameSetup_def split: if_splits)

lemma addTransfer_total:
  assumes "unat i < length (blockStats c)"
  shows "\<exists>c'. addTransfer rnd rd i e a c = Inr c'"
  using assms by (simp add: addTransfer_def vec_modify_def bindE_def)

lemma countError_total:
  assumes "unat i < length (blockStats c)"
  shows "\<exists>c'. countError rd i c = Inr c'"
  using assms by (simp add: countError_def vec_modify_def bindE_def)

text \<open>
  The comparison loop of lines 118-127, when both vectors have the \<open>n\<close> bytes it reads: it
  returns; it finds nothing exactly when the vectors agree from \<open>i\<close> up to \<open>n\<close>; and what it
  finds is the first index there at which they differ.
\<close>

lemma firstMismatch_total:
  assumes "unat n \<le> length b" and "unat n \<le> length x"
  shows "\<exists>m. firstMismatch i n b x = Inr m
     \<and> (m = None \<longleftrightarrow> (\<forall>l. unat i \<le> l \<and> l < unat n \<longrightarrow> b ! l = x ! l))
     \<and> (\<forall>e g. m = Some (e, g) \<longrightarrow>
          (\<exists>l. unat i \<le> l \<and> l < unat n \<and> e = x ! l \<and> g = b ! l \<and> b ! l \<noteq> x ! l
             \<and> (\<forall>l'. unat i \<le> l' \<and> l' < l \<longrightarrow> b ! l' = x ! l')))"
  using assms
proof (induction i n b x rule: firstMismatch.induct)
  case (1 i n b x)
  show ?case
  proof (cases "i < n")
    case True
    then have lt: "unat i < unat n"
      by (simp add: word_less_nat_alt)
    from True have suc: "unat (i + 1) = Suc (unat i)"
      by (rule unat_Suc_less)
    from lt "1.prems" have at: "vec_at b i = Inr (b ! unat i)" "vec_at x i = Inr (x ! unat i)"
      by (simp_all add: vec_at_def)
    show ?thesis
    proof (cases "b ! unat i = x ! unat i")
      case eq: True
      from "1.IH" [OF True at(1) at(2) _ "1.prems"] eq
      obtain m where m: "firstMismatch (i + 1) n b x = Inr m"
        and none: "m = None \<longleftrightarrow> (\<forall>l. Suc (unat i) \<le> l \<and> l < unat n \<longrightarrow> b ! l = x ! l)"
        and some: "\<forall>e g. m = Some (e, g) \<longrightarrow>
          (\<exists>l. Suc (unat i) \<le> l \<and> l < unat n \<and> e = x ! l \<and> g = b ! l \<and> b ! l \<noteq> x ! l
             \<and> (\<forall>l'. Suc (unat i) \<le> l' \<and> l' < l \<longrightarrow> b ! l' = x ! l'))"
        unfolding suc by auto
      have run: "firstMismatch i n b x = Inr m"
        using True at eq m by (subst firstMismatch.simps) simp
      have split: "unat i \<le> l \<longleftrightarrow> l = unat i \<or> Suc (unat i) \<le> l" for l
        by auto
      have n': "m = None \<longleftrightarrow> (\<forall>l. unat i \<le> l \<and> l < unat n \<longrightarrow> b ! l = x ! l)"
        using none eq by (auto simp add: split)
      have s': "\<exists>l. unat i \<le> l \<and> l < unat n \<and> e = x ! l \<and> g = b ! l \<and> b ! l \<noteq> x ! l
             \<and> (\<forall>l'. unat i \<le> l' \<and> l' < l \<longrightarrow> b ! l' = x ! l')" if "m = Some (e, g)" for e g
      proof -
        from some that obtain l where l: "Suc (unat i) \<le> l" "l < unat n" "e = x ! l" "g = b ! l"
          "b ! l \<noteq> x ! l" "\<forall>l'. Suc (unat i) \<le> l' \<and> l' < l \<longrightarrow> b ! l' = x ! l'"
          by blast
        from l(6) eq have "\<forall>l'. unat i \<le> l' \<and> l' < l \<longrightarrow> b ! l' = x ! l'"
          by (auto simp add: split)
        with l show ?thesis
          by (intro exI [of _ l]) simp
      qed
      from run n' s' show ?thesis
        by blast
    next
      case False
      have run: "firstMismatch i n b x = Inr (Some (x ! unat i, b ! unat i))"
        using True at False by (subst firstMismatch.simps) simp
      have "\<not> (\<forall>l. unat i \<le> l \<and> l < unat n \<longrightarrow> b ! l = x ! l)"
        using False lt by auto
      moreover have "\<exists>l. unat i \<le> l \<and> l < unat n \<and> x ! unat i = x ! l \<and> b ! unat i = b ! l \<and> b ! l \<noteq> x ! l
             \<and> (\<forall>l'. unat i \<le> l' \<and> l' < l \<longrightarrow> b ! l' = x ! l')"
        using False lt by (intro exI [of _ "unat i"]) auto
      ultimately show ?thesis
        using run by simp
    qed
  next
    case False
    then have "unat n \<le> unat i"
      by (simp add: word_less_nat_alt)
    moreover from False have "firstMismatch i n b x = Inr None"
      by (subst firstMismatch.simps) simp
    ultimately show ?thesis
      by auto
  qed
qed

lemma sameSetup_refl: "sameSetup c c"
  by (simp add: sameSetup_def)

lemma sameSetup_trans: "sameSetup a b \<Longrightarrow> sameSetup b c \<Longrightarrow> sameSetup a c"
  by (simp add: sameSetup_def)

lemma sameSetup_world: "sameSetup c (c\<lparr>world := w\<rparr>)"
  by (simp add: sameSetup_def)

lemma progressSafe_sameSetup: "sameSetup c c' \<Longrightarrow> progressSafe c \<Longrightarrow> progressSafe c'"
  by (simp add: sameSetup_def progressSafe_def)


lemma length_storeRead: "length (storeRead buffer cnt data) = length buffer"
  by (simp add: storeRead_def Let_def)

lemma recordWrite_Inr:
  assumes "recordWrite rnd result i e a c = Inr c'"
  shows "unat i < length (blockStats c)"
    and "blockStats c' = (blockStats c)[unat i :=
           (if result < 0
            then (blockStats c ! unat i)\<lparr>errors := errors (blockStats c ! unat i) + 1\<rparr>
            else (blockStats c ! unat i)\<lparr>time := fadd rnd (time (blockStats c ! unat i)) e,
                                          bytes := bytes (blockStats c ! unat i) + a\<rparr>)]"
    and "totalWrite c' =
           (if result < 0 then (totalWrite c)\<lparr>errors := errors (totalWrite c) + 1\<rparr>
            else (totalWrite c)\<lparr>time := fadd rnd (time (totalWrite c)) e,
                                 bytes := bytes (totalWrite c) + a\<rparr>)"
    and "totalRead c' = totalRead c"
    and "sameSetup c c'" and "world c' = world c" and "cout c' = cout c"
proof -
  have "unat i < length (blockStats c)
    \<and> blockStats c' = (blockStats c)[unat i :=
           (if result < 0
            then (blockStats c ! unat i)\<lparr>errors := errors (blockStats c ! unat i) + 1\<rparr>
            else (blockStats c ! unat i)\<lparr>time := fadd rnd (time (blockStats c ! unat i)) e,
                                          bytes := bytes (blockStats c ! unat i) + a\<rparr>)]
    \<and> totalWrite c' =
           (if result < 0 then (totalWrite c)\<lparr>errors := errors (totalWrite c) + 1\<rparr>
            else (totalWrite c)\<lparr>time := fadd rnd (time (totalWrite c)) e,
                                 bytes := bytes (totalWrite c) + a\<rparr>)
    \<and> totalRead c' = totalRead c
    \<and> sameSetup c c' \<and> world c' = world c \<and> cout c' = cout c"
  proof (cases "result < 0")
    case True
    with assms have "countError False i c = Inr c'"
      by (simp add: recordWrite_def)
    from countError_Inr [OF this] True show ?thesis
      by simp
  next
    case False
    with assms have "addTransfer rnd False i e a c = Inr c'"
      by (simp add: recordWrite_def)
    from addTransfer_Inr [OF this] False show ?thesis
      by simp
  qed
  then show "unat i < length (blockStats c)"
    and "blockStats c' = (blockStats c)[unat i :=
           (if result < 0
            then (blockStats c ! unat i)\<lparr>errors := errors (blockStats c ! unat i) + 1\<rparr>
            else (blockStats c ! unat i)\<lparr>time := fadd rnd (time (blockStats c ! unat i)) e,
                                          bytes := bytes (blockStats c ! unat i) + a\<rparr>)]"
    and "totalWrite c' =
           (if result < 0 then (totalWrite c)\<lparr>errors := errors (totalWrite c) + 1\<rparr>
            else (totalWrite c)\<lparr>time := fadd rnd (time (totalWrite c)) e,
                                 bytes := bytes (totalWrite c) + a\<rparr>)"
    and "totalRead c' = totalRead c"
    and "sameSetup c c'" and "world c' = world c" and "cout c' = cout c"
    by blast+
qed

lemma recordWrite_total:
  assumes "unat i < length (blockStats c)"
  shows "\<exists>c'. recordWrite rnd result i e a c = Inr c'"
  using addTransfer_total [OF assms] countError_total [OF assms]
  by (simp add: recordWrite_def)

text \<open>
  The verification of a block (lines 116-128) when both vectors have \<open>blockSize\<close> bytes:
  it returns, and adds \<open>k\<close> errors to the block and to the direction, where \<open>k\<close> is 0 when
  the vectors agree on their first \<open>blockSize\<close> bytes and 1 when they do not.
\<close>

lemma verifyBlock_total:
  assumes "unat (blockSize c) \<le> length b" and "unat (blockSize c) \<le> length x"
    and "unat i < length (blockStats c)"
  shows "\<exists>c1 k. verifyBlock i b x c = Inr c1 \<and> k \<le> 1
     \<and> (k = 0 \<longleftrightarrow> (\<forall>l<unat (blockSize c). b ! l = x ! l))
     \<and> blockStats c1 = (blockStats c)[unat i := (blockStats c ! unat i)
           \<lparr>errors := errors (blockStats c ! unat i) + k\<rparr>]
     \<and> totalRead c1 = (totalRead c)\<lparr>errors := errors (totalRead c) + k\<rparr>
     \<and> totalWrite c1 = totalWrite c \<and> sameSetup c c1 \<and> world c1 = world c
     \<and> passSummaries (cout c1) = passSummaries (cout c)
     \<and> slowWarnings (cout c1) = slowWarnings (cout c)"
proof -
  from firstMismatch_total [OF assms(1,2), of 0]
  obtain m where m: "firstMismatch 0 (blockSize c) b x = Inr m"
    and none: "m = None \<longleftrightarrow> (\<forall>l<unat (blockSize c). b ! l = x ! l)"
    by auto
  show ?thesis
  proof (cases m)
    case None
    with m have "verifyBlock i b x c = Inr c"
      by (simp add: verifyBlock_def bindE_def)
    moreover from None none have "\<forall>l<unat (blockSize c). b ! l = x ! l"
      by simp
    ultimately show ?thesis
      using assms(3) by (intro exI [of _ c] exI [of _ 0]) (simp add: sameSetup_refl)
  next
    case (Some eg)
    obtain e g where eg: "eg = (e, g)"
      by (cases eg)
    define c0 where "c0 = print (DataError e g i) c"
    from assms(3) have "unat i < length (blockStats c0)"
      by (simp add: c0_def print_def)
    from countError_total [OF this] obtain c1 where c1: "countError True i c0 = Inr c1"
      by blast
    from m Some eg c1 have run: "verifyBlock i b x c = Inr c1"
      by (simp add: verifyBlock_def bindE_def c0_def)
    from Some none have ne: "\<not> (\<forall>l<unat (blockSize c). b ! l = x ! l)"
      by simp
    note r = countError_Inr [OF c1]
    have "(1 :: size_t) \<le> 1 \<and> ((1 :: size_t) = 0 \<longleftrightarrow> (\<forall>l<unat (blockSize c). b ! l = x ! l))
     \<and> blockStats c1 = (blockStats c)[unat i := (blockStats c ! unat i)
           \<lparr>errors := errors (blockStats c ! unat i) + 1\<rparr>]
     \<and> totalRead c1 = (totalRead c)\<lparr>errors := errors (totalRead c) + 1\<rparr>
     \<and> totalWrite c1 = totalWrite c \<and> sameSetup c c1 \<and> world c1 = world c
     \<and> passSummaries (cout c1) = passSummaries (cout c)
     \<and> slowWarnings (cout c1) = slowWarnings (cout c)"
      using r ne
      by (simp add: c0_def print_def sameSetup_def passSummaries_def slowWarnings_def)
    with run show ?thesis
      by blast
  qed
qed

lemma verifyBlock_Inr:
  assumes "verifyBlock i b x c = Inr c1"
  shows "length (blockStats c1) = length (blockStats c)"
    and "map bytes (blockStats c1) = map bytes (blockStats c)"
    and "totalWrite c1 = totalWrite c" and "sameSetup c c1" and "world c1 = world c"
    and "passSummaries (cout c1) = passSummaries (cout c)"
    and "slowWarnings (cout c1) = slowWarnings (cout c)"
proof -
  from assms have "c1 = c \<or> (\<exists>e g. countError True i (print (DataError e g i) c) = Inr c1)"
    by (auto simp add: verifyBlock_def bindE_Inr_iff split: option.splits)
  then have "length (blockStats c1) = length (blockStats c)
    \<and> map bytes (blockStats c1) = map bytes (blockStats c)
    \<and> totalWrite c1 = totalWrite c \<and> sameSetup c c1 \<and> world c1 = world c
    \<and> passSummaries (cout c1) = passSummaries (cout c)
    \<and> slowWarnings (cout c1) = slowWarnings (cout c)"
  proof (elim disjE exE)
    assume "c1 = c"
    then show ?thesis
      by (simp add: sameSetup_refl)
  next
    fix e g
    assume "countError True i (print (DataError e g i) c) = Inr c1"
    note r = countError_Inr [OF this]
    from r(1,2) have "map bytes (blockStats c1) = map bytes (blockStats c)"
      by (simp add: print_def map_update list_update_same_conv)
    with r show ?thesis
      by (simp add: print_def sameSetup_def passSummaries_def slowWarnings_def)
  qed
  then show "length (blockStats c1) = length (blockStats c)"
    and "map bytes (blockStats c1) = map bytes (blockStats c)"
    and "totalWrite c1 = totalWrite c" and "sameSetup c c1" and "world c1 = world c"
    and "passSummaries (cout c1) = passSummaries (cout c)"
    and "slowWarnings (cout c1) = slowWarnings (cout c)"
    by blast+
qed

text \<open>What a read pass records for a block, as far as the bytes go.\<close>

lemma recordRead_Inr:
  assumes "recordRead rnd pattern result i b x e a c = Inr c'"
  shows "unat i < length (blockStats c)"
    and "length (blockStats c') = length (blockStats c)"
    and "map bytes (blockStats c') = (map bytes (blockStats c))
           [unat i := bytes (blockStats c ! unat i) + (if result < 0 then 0 else a)]"
    and "totalWrite c' = totalWrite c" and "sameSetup c c'" and "world c' = world c"
    and "passSummaries (cout c') = passSummaries (cout c)"
    and "slowWarnings (cout c') = slowWarnings (cout c)"
proof -
  have "unat i < length (blockStats c)
    \<and> length (blockStats c') = length (blockStats c)
    \<and> map bytes (blockStats c') = (map bytes (blockStats c))
           [unat i := bytes (blockStats c ! unat i) + (if result < 0 then 0 else a)]
    \<and> totalWrite c' = totalWrite c \<and> sameSetup c c' \<and> world c' = world c
    \<and> passSummaries (cout c') = passSummaries (cout c)
    \<and> slowWarnings (cout c') = slowWarnings (cout c)"
  proof (cases "result < 0")
    case True
    with assms have "countError True i c = Inr c'"
      by (simp add: recordRead_def)
    note r = countError_Inr [OF this]
    from r(1,2) True have "map bytes (blockStats c') = (map bytes (blockStats c))
           [unat i := bytes (blockStats c ! unat i) + (if result < 0 then 0 else a)]"
      by (simp add: map_update)
    with r show ?thesis
      by simp
  next
    case False
    with assms obtain c1 where
      v: "(if pattern \<noteq> None then verifyBlock i b x c else Inr c) = Inr c1"
      and t: "addTransfer rnd True i e a c1 = Inr c'"
      by (auto simp add: recordRead_def bindE_Inr_iff)
    have c1: "length (blockStats c1) = length (blockStats c)
      \<and> map bytes (blockStats c1) = map bytes (blockStats c)
      \<and> totalWrite c1 = totalWrite c \<and> sameSetup c c1 \<and> world c1 = world c
      \<and> passSummaries (cout c1) = passSummaries (cout c)
      \<and> slowWarnings (cout c1) = slowWarnings (cout c)"
    proof (cases "pattern = None")
      case True
      with v have "c1 = c"
        by simp
      then show ?thesis
        by (simp add: sameSetup_refl)
    next
      case p: False
      with v have "verifyBlock i b x c = Inr c1"
        by simp
      from verifyBlock_Inr [OF this] show ?thesis
        by simp
    qed
    note r = addTransfer_Inr [OF t]
    from r(1) c1 have lt: "unat i < length (blockStats c)"
      by simp
    from r(2) c1 have len: "length (blockStats c') = length (blockStats c)"
      by simp
    from lt c1 have "unat i < length (blockStats c1)"
      by simp
    then have "map bytes (blockStats c1) ! unat i = bytes (blockStats c1 ! unat i)"
      by (rule nth_map)
    moreover from lt have "map bytes (blockStats c) ! unat i = bytes (blockStats c ! unat i)"
      by (rule nth_map)
    moreover from c1 have "map bytes (blockStats c1) = map bytes (blockStats c)"
      by (rule conjunct1 [OF conjunct2])
    ultimately have "bytes (blockStats c1 ! unat i) = bytes (blockStats c ! unat i)"
      by (simp only:)
    with r(2) c1 False have b: "map bytes (blockStats c') = (map bytes (blockStats c))
           [unat i := bytes (blockStats c ! unat i) + (if result < 0 then 0 else a)]"
      by (simp add: map_update)
    from c1 r(5) have s: "sameSetup c c'"
      by (blast intro: sameSetup_trans)
    from lt len b s r(4,6,7) c1 show ?thesis
      by simp
  qed
  then show "unat i < length (blockStats c)"
    and "length (blockStats c') = length (blockStats c)"
    and "map bytes (blockStats c') = (map bytes (blockStats c))
           [unat i := bytes (blockStats c ! unat i) + (if result < 0 then 0 else a)]"
    and "totalWrite c' = totalWrite c" and "sameSetup c c'" and "world c' = world c"
    and "passSummaries (cout c') = passSummaries (cout c)"
    and "slowWarnings (cout c') = slowWarnings (cout c)"
    by blast+
qed

text \<open>What a read pass with a pattern records for a block, in full.\<close>

lemma recordRead_total:
  assumes "unat (blockSize c) \<le> length b" and "unat (blockSize c) \<le> length x"
    and "unat i < length (blockStats c)"
  shows "\<exists>c' k. recordRead rnd (Some p) result i b x e a c = Inr c' \<and> k \<le> 1
     \<and> (k = 0 \<longleftrightarrow> (\<forall>l<unat (blockSize c). b ! l = x ! l))
     \<and> blockStats c' = (blockStats c)[unat i :=
           (if result < 0
            then (blockStats c ! unat i)\<lparr>errors := errors (blockStats c ! unat i) + 1\<rparr>
            else (blockStats c ! unat i)\<lparr>time := fadd rnd (time (blockStats c ! unat i)) e,
                                          errors := errors (blockStats c ! unat i) + k,
                                          bytes := bytes (blockStats c ! unat i) + a\<rparr>)]
     \<and> totalRead c' =
           (if result < 0 then (totalRead c)\<lparr>errors := errors (totalRead c) + 1\<rparr>
            else (totalRead c)\<lparr>time := fadd rnd (time (totalRead c)) e,
                                errors := errors (totalRead c) + k,
                                bytes := bytes (totalRead c) + a\<rparr>)"
proof -
  from verifyBlock_total [OF assms] obtain c1 k where v: "verifyBlock i b x c = Inr c1"
    and k: "k \<le> 1" "k = 0 \<longleftrightarrow> (\<forall>l<unat (blockSize c). b ! l = x ! l)"
    and c1: "blockStats c1 = (blockStats c)[unat i := (blockStats c ! unat i)
           \<lparr>errors := errors (blockStats c ! unat i) + k\<rparr>]"
      "totalRead c1 = (totalRead c)\<lparr>errors := errors (totalRead c) + k\<rparr>"
    by blast
  have swap: "r\<lparr>errors := n, time := t, bytes := m\<rparr> = r\<lparr>time := t, errors := n, bytes := m\<rparr>"
    for r :: BlockStats and n t m
    by (cases r) simp
  show ?thesis
  proof (cases "result < 0")
    case True
    from countError_total [OF assms(3)] obtain c' where e: "countError True i c = Inr c'"
      by blast
    with True have run: "recordRead rnd (Some p) result i b x e a c = Inr c'"
      by (simp add: recordRead_def)
    from countError_Inr [OF e] True run k show ?thesis
      by (intro exI [of _ c'] exI [of _ k]) simp
  next
    case False
    from assms(3) c1(1) have "unat i < length (blockStats c1)"
      by simp
    from addTransfer_total [OF this] obtain c' where t: "addTransfer rnd True i e a c1 = Inr c'"
      by blast
    with False v have run: "recordRead rnd (Some p) result i b x e a c = Inr c'"
      by (simp add: recordRead_def bindE_def)
    from addTransfer_Inr [OF t] c1 assms(3) False
    have "blockStats c' = (blockStats c)[unat i :=
           (if result < 0
            then (blockStats c ! unat i)\<lparr>errors := errors (blockStats c ! unat i) + 1\<rparr>
            else (blockStats c ! unat i)\<lparr>time := fadd rnd (time (blockStats c ! unat i)) e,
                                          errors := errors (blockStats c ! unat i) + k,
                                          bytes := bytes (blockStats c ! unat i) + a\<rparr>)]"
      and "totalRead c' =
           (if result < 0 then (totalRead c)\<lparr>errors := errors (totalRead c) + 1\<rparr>
            else (totalRead c)\<lparr>time := fadd rnd (time (totalRead c)) e,
                                errors := errors (totalRead c) + k,
                                bytes := bytes (totalRead c) + a\<rparr>)"
      by (simp_all add: swap)
    with run k show ?thesis
      by (intro exI [of _ c'] exI [of _ k]) simp
  qed
qed

lemma initBlock_length:
  assumes "initBlock b i p = Inr r"
  shows "length r = length b" and "8 \<le> length b"
  using assms by (auto simp add: initBlock_def split: if_splits)

lemma initBlock_total:
  assumes "8 \<le> length b"
  shows "\<exists>r. initBlock b i p = Inr r"
  using assms by (simp add: initBlock_def)

lemma writeCall_eq:
  assumes "writeCall sys fd j buffer c = (result, elapsed, a, w)"
  shows "a = accessSize (sizeBytes c) (blockSize c) j"
    and "result = fst (sys_write sys fd (take (unat a) buffer) (snd (getTimeSec sys (world c))))"
    and "elapsed = fsub (fp_round sys)
           (fst (getTimeSec sys (snd (sys_write sys fd (take (unat a) buffer)
                                        (snd (getTimeSec sys (world c)))))))
           (fst (getTimeSec sys (world c)))"
    and "w = snd (getTimeSec sys (snd (sys_write sys fd (take (unat a) buffer)
                                        (snd (getTimeSec sys (world c))))))"
  using assms by (auto simp add: writeCall_def Let_def split_beta)

lemma readCall_eq:
  assumes "readCall sys fd j buf c = (result, elapsed, a, buffer, w)"
  shows "a = accessSize (sizeBytes c) (blockSize c) j"
    and "result = fst (fst (sys_read sys fd a (snd (getTimeSec sys (world c)))))"
    and "buffer = storeRead buf (unat a) (snd (fst (sys_read sys fd a (snd (getTimeSec sys (world c))))))"
    and "elapsed = fsub (fp_round sys)
           (fst (getTimeSec sys (snd (sys_read sys fd a (snd (getTimeSec sys (world c)))))))
           (fst (getTimeSec sys (world c)))"
    and "w = snd (getTimeSec sys (snd (sys_read sys fd a (snd (getTimeSec sys (world c))))))"
  using assms by (auto simp add: readCall_def Let_def split_beta)

lemma writeBlock_Inr:
  assumes "writeBlock sys fd p j (c, buf) = Inr (c', buf')"
  shows "\<exists>result elapsed a w c2.
      initBlock buf j p = Inr buf'
    \<and> writeCall sys fd j buf' c = (result, elapsed, a, w)
    \<and> recordWrite (fp_round sys) result j elapsed a (c\<lparr>world := w\<rparr>) = Inr c2
    \<and> printProgress sys j c2 = Inr c'"
proof -
  from assms obtain buffer where i: "initBlock buf j p = Inr buffer"
    and rest: "(case writeCall sys fd j buffer c of (result, elapsed, accessSz, w) \<Rightarrow>
          bindE (recordWrite (fp_round sys) result j elapsed accessSz (c\<lparr>world := w\<rparr>))
            (\<lambda>c2. bindE (printProgress sys j c2) (\<lambda>c3. Inr (c3, buffer)))) = Inr (c', buf')"
    by (auto simp add: writeBlock_def bindE_Inr_iff)
  obtain result elapsed a w where call: "writeCall sys fd j buffer c = (result, elapsed, a, w)"
    by (cases "writeCall sys fd j buffer c")
  from rest obtain c2 where "recordWrite (fp_round sys) result j elapsed a (c\<lparr>world := w\<rparr>) = Inr c2"
    and "printProgress sys j c2 = Inr c'" and "buf' = buffer"
    by (auto simp add: call bindE_Inr_iff)
  with i call show ?thesis
    by blast
qed

lemma readBlock_Inr:
  assumes "readBlock sys fd pattern j (c, buf, ex) = Inr (c', buf', ex')"
  shows "\<exists>p result elapsed a w c2.
      pattern = Some p \<and> initBlock ex j p = Inr ex'
    \<and> readCall sys fd j buf c = (result, elapsed, a, buf', w)
    \<and> recordRead (fp_round sys) pattern result j buf' ex' elapsed a (c\<lparr>world := w\<rparr>) = Inr c2
    \<and> printProgress sys j c2 = Inr c'"
proof -
  from assms obtain p expected where p: "pattern = Some p" and i: "initBlock ex j p = Inr expected"
    and rest: "(case readCall sys fd j buf c of (result, elapsed, accessSz, buffer, w) \<Rightarrow>
          bindE (recordRead (fp_round sys) pattern result j buffer expected elapsed accessSz
                   (c\<lparr>world := w\<rparr>))
            (\<lambda>c2. bindE (printProgress sys j c2) (\<lambda>c3. Inr (c3, buffer, expected))))
          = Inr (c', buf', ex')"
    by (auto simp add: readBlock_def bindE_Inr_iff deref_def split: option.splits)
  obtain result elapsed a buffer w where call: "readCall sys fd j buf c = (result, elapsed, a, buffer, w)"
    by (cases "readCall sys fd j buf c")
  from rest obtain c2 where
    "recordRead (fp_round sys) pattern result j buffer expected elapsed a (c\<lparr>world := w\<rparr>) = Inr c2"
    and "printProgress sys j c2 = Inr c'" and "buf' = buffer" and "ex' = expected"
    by (auto simp add: call bindE_Inr_iff)
  with p i call show ?thesis
    by blast
qed

text \<open>
  A block of a write pass returns when the buffer has the 8 bytes \<^verbatim>\<open>initBlock\<close> writes,
  the block has a record and the progress line can be printed.
\<close>

lemma writeBlock_total:
  assumes "8 \<le> length buf" and "unat j < length (blockStats c)" and "progressSafe c"
  shows "\<exists>c' buffer. writeBlock sys fd p j (c, buf) = Inr (c', buffer)"
proof -
  from initBlock_total [OF assms(1)] obtain buffer where i: "initBlock buf j p = Inr buffer"
    by blast
  obtain result elapsed a w where call: "writeCall sys fd j buffer c = (result, elapsed, a, w)"
    by (cases "writeCall sys fd j buffer c")
  from assms(2) have "unat j < length (blockStats (c\<lparr>world := w\<rparr>))"
    by simp
  from recordWrite_total [OF this] obtain c2
    where r: "recordWrite (fp_round sys) result j elapsed a (c\<lparr>world := w\<rparr>) = Inr c2"
    by blast
  have "sameSetup c c2"
    using sameSetup_world recordWrite_Inr(5) [OF r] by (rule sameSetup_trans)
  then have "progressSafe c2"
    using assms(3) by (rule progressSafe_sameSetup)
  from printProgress_total [OF this] obtain c' where "printProgress sys j c2 = Inr c'"
    by blast
  with i call r have "writeBlock sys fd p j (c, buf) = Inr (c', buffer)"
    by (simp add: writeBlock_def bindE_def)
  then show ?thesis
    by blast
qed

text \<open>
  A block of a read pass with a pattern returns when both vectors have \<open>blockSize\<close> bytes,
  at least the 8 that \<^verbatim>\<open>initBlock\<close> writes, the block has a record and the progress line
  can be printed.
\<close>

lemma readBlock_total:
  assumes "8 \<le> unat (blockSize c)" and "length buf = unat (blockSize c)"
    and "length ex = unat (blockSize c)"
    and "unat j < length (blockStats c)" and "progressSafe c"
  shows "\<exists>c' buffer expected. readBlock sys fd (Some p) j (c, buf, ex) = Inr (c', buffer, expected)"
proof -
  from assms(1,3) have "8 \<le> length ex"
    by simp
  from initBlock_total [OF this] obtain expected where i: "initBlock ex j p = Inr expected"
    by blast
  obtain result elapsed a buffer w where call: "readCall sys fd j buf c = (result, elapsed, a, buffer, w)"
    by (cases "readCall sys fd j buf c")
  from readCall_eq(3) [OF call] assms(2) have lb: "length buffer = unat (blockSize c)"
    by (simp add: length_storeRead)
  from initBlock_length(1) [OF i] assms(3) have lx: "length expected = unat (blockSize c)"
    by simp
  from lb lx assms(4) have "unat (blockSize (c\<lparr>world := w\<rparr>)) \<le> length buffer"
    "unat (blockSize (c\<lparr>world := w\<rparr>)) \<le> length expected"
    "unat j < length (blockStats (c\<lparr>world := w\<rparr>))"
    by simp_all
  from recordRead_total [OF this] obtain c2
    where r: "recordRead (fp_round sys) (Some p) result j buffer expected elapsed a (c\<lparr>world := w\<rparr>) = Inr c2"
    by blast
  have "sameSetup c c2"
    using sameSetup_world recordRead_Inr(5) [OF r] by (rule sameSetup_trans)
  then have "progressSafe c2"
    using assms(5) by (rule progressSafe_sameSetup)
  from printProgress_total [OF this] obtain c' where "printProgress sys j c2 = Inr c'"
    by blast
  with i call r have "readBlock sys fd (Some p) j (c, buf, ex) = Inr (c', buffer, expected)"
    by (simp add: readBlock_def bindE_def deref_def)
  then show ?thesis
    by blast
qed





subsection \<open>Pass executor: the bytes of a completed pass\<close>

lemma callLog_world: "callLog (c\<lparr>world := (w, l)\<rparr>) = l"
  by (simp add: callLog_def)

lemma logged_getTimeSec: "snd (snd (getTimeSec (logged sys) w)) = snd w"
  by (simp add: logged_def split_beta)

lemma logged_sys_open: "snd (snd (sys_open (logged sys) name wr w)) = snd w"
  by (simp add: logged_def split_beta)

lemma logged_sys_close: "snd (sys_close (logged sys) fd w) = snd w"
  by (simp add: logged_def split_beta)

lemma logged_sys_write:
  "snd (snd (sys_write (logged sys) fd d w)) = snd w @ [fst (sys_write (logged sys) fd d w)]"
  by (simp add: logged_def split_beta)

lemma logged_sys_read:
  "snd (snd (sys_read (logged sys) fd n w)) = snd w @ [fst (fst (sys_read (logged sys) fd n w))]"
  by (simp add: logged_def split_beta)

lemma writeCall_logged:
  assumes "writeCall (logged sys) fd j buffer c = (result, elapsed, a, w)"
  shows "snd (snd (getTimeSec (logged sys) w)) = callLog c @ [result]"
  using writeCall_eq(2,4) [OF assms]
  by (simp add: logged_getTimeSec logged_sys_write callLog_def)

lemma readCall_logged:
  assumes "readCall (logged sys) fd j buf c = (result, elapsed, a, buffer, w)"
  shows "snd (snd (getTimeSec (logged sys) w)) = callLog c @ [result]"
  using readCall_eq(2,5) [OF assms]
  by (simp add: logged_getTimeSec logged_sys_read callLog_def)

text \<open>
  A block of a pass on an observed system: one result is added to the log, and the bytes
  of the block grow by the access length unless that result is negative.
\<close>

lemma writeBlock_logged:
  assumes "writeBlock (logged sys) fd p j t = Inr t'"
  shows "\<exists>result. callLog (fst t') = callLog (fst t) @ [result]
     \<and> sameSetup (fst t) (fst t')
     \<and> length (blockStats (fst t')) = length (blockStats (fst t))
     \<and> map bytes (blockStats (fst t')) = (map bytes (blockStats (fst t)))
          [unat j := bytes (blockStats (fst t) ! unat j)
             + (if result < 0 then 0 else accessSize (sizeBytes (fst t)) (blockSize (fst t)) j)]"
proof -
  obtain c buf where t: "t = (c, buf)" by (cases t)
  obtain c' buf' where t': "t' = (c', buf')" by (cases t')
  from writeBlock_Inr [OF assms [unfolded t t']] obtain result elapsed a w c2 where
    call: "writeCall (logged sys) fd j buf' c = (result, elapsed, a, w)"
    and r: "recordWrite (fp_round (logged sys)) result j elapsed a (c\<lparr>world := w\<rparr>) = Inr c2"
    and pp: "printProgress (logged sys) j c2 = Inr c'"
    by blast
  note e = writeCall_eq [OF call]
  note rw = recordWrite_Inr [OF r]
  note q = printProgress_frame [OF pp]
  from q(5) rw(6) have "callLog c' = snd (snd (getTimeSec (logged sys) w))"
    by (simp add: callLog_def)
  then have log: "callLog c' = callLog c @ [result]"
    by (simp only: writeCall_logged [OF call])
  have s: "sameSetup c c'"
    using sameSetup_world [of c w] rw(5) q(4) by (blast intro: sameSetup_trans)
  from q(1) rw(1,2) have len: "length (blockStats c') = length (blockStats c)"
    by simp
  from q(1) rw(1,2) have "map bytes (blockStats c') = (map bytes (blockStats c))
          [unat j := bytes (blockStats c ! unat j) + (if result < 0 then 0 else a)]"
    by (simp add: map_update)
  with log s len show ?thesis
    by (simp add: t t' e(1))
qed

lemma readBlock_logged:
  assumes "readBlock (logged sys) fd pattern j t = Inr t'"
  shows "\<exists>result. callLog (fst t') = callLog (fst t) @ [result]
     \<and> sameSetup (fst t) (fst t')
     \<and> length (blockStats (fst t')) = length (blockStats (fst t))
     \<and> map bytes (blockStats (fst t')) = (map bytes (blockStats (fst t)))
          [unat j := bytes (blockStats (fst t) ! unat j)
             + (if result < 0 then 0 else accessSize (sizeBytes (fst t)) (blockSize (fst t)) j)]"
proof -
  obtain c buf ex where t: "t = (c, buf, ex)" by (cases t)
  obtain c' buf' ex' where t': "t' = (c', buf', ex')" by (cases t')
  from readBlock_Inr [OF assms [unfolded t t']] obtain result elapsed a w c2 where
    call: "readCall (logged sys) fd j buf c = (result, elapsed, a, buf', w)"
    and r: "recordRead (fp_round (logged sys)) pattern result j buf' ex' elapsed a (c\<lparr>world := w\<rparr>) = Inr c2"
    and pp: "printProgress (logged sys) j c2 = Inr c'"
    by blast
  note e = readCall_eq [OF call]
  note rw = recordRead_Inr [OF r]
  note q = printProgress_frame [OF pp]
  from q(5) rw(6) have "callLog c' = snd (snd (getTimeSec (logged sys) w))"
    by (simp add: callLog_def)
  then have log: "callLog c' = callLog c @ [result]"
    by (simp only: readCall_logged [OF call])
  have s: "sameSetup c c'"
    using sameSetup_world [of c w] rw(5) q(4) by (blast intro: sameSetup_trans)
  from q(1) rw(2) have len: "length (blockStats c') = length (blockStats c)"
    by simp
  from q(1) rw(3) have "map bytes (blockStats c') = (map bytes (blockStats c))
          [unat j := bytes (blockStats c ! unat j) + (if result < 0 then 0 else a)]"
    by simp
  with log s len show ?thesis
    by (simp add: t t' e(1))
qed

lemma bytes_step:
  fixes j n :: size_t and v v' :: "BlockStats list" and rs :: "int list" and f :: "nat \<Rightarrow> size_t"
  assumes len: "length v = unat n" and len': "length v' = unat n" and lrs: "length rs = unat j"
    and inv: "map bytes v = map (\<lambda>k. if k < unat j \<and> 0 \<le> rs ! k then f k else 0) [0..<unat n]"
    and j: "j < n"
    and upd: "map bytes v' = (map bytes v)
                [unat j := bytes (v ! unat j) + (if result < 0 then 0 else f (unat j))]"
  shows "map bytes v' =
     map (\<lambda>k. if k < unat (j + 1) \<and> 0 \<le> (rs @ [result]) ! k then f k else 0) [0..<unat n]"
proof (rule nth_equalityI)
  show "length (map bytes v') =
      length (map (\<lambda>k. if k < unat (j + 1) \<and> 0 \<le> (rs @ [result]) ! k then f k else 0) [0..<unat n])"
    by (simp add: len')
next
  fix k assume "k < length (map bytes v')"
  then have k: "k < unat n"
    by (simp add: len')
  from j have suc: "unat (j + 1) = Suc (unat j)"
    by (rule unat_Suc_less)
  from j have jn: "unat j < unat n"
    by (simp add: word_less_nat_alt)
  have nth: "bytes (v ! m) = (if m < unat j \<and> 0 \<le> rs ! m then f m else 0)" if "m < unat n" for m
  proof -
    from that len have "map bytes v ! m = bytes (v ! m)"
      by simp
    moreover from that have "map (\<lambda>k. if k < unat j \<and> 0 \<le> rs ! k then f k else 0) [0..<unat n] ! m
        = (if m < unat j \<and> 0 \<le> rs ! m then f m else 0)"
      by simp
    ultimately show ?thesis
      by (simp only: inv)
  qed
  from nth [OF k] have old: "bytes (v ! k) = (if k < unat j \<and> 0 \<le> rs ! k then f k else 0)" .
  from nth [OF jn] have oldj: "bytes (v ! unat j) = 0"
    by simp
  have "map bytes v' ! k =
      (if k = unat j then bytes (v ! unat j) + (if result < 0 then 0 else f (unat j))
       else map bytes v ! k)"
    using k len by (simp add: upd nth_list_update)
  also have "\<dots> = (if k < Suc (unat j) \<and> 0 \<le> (rs @ [result]) ! k then f k else 0)"
    using k len old oldj lrs by (auto simp add: less_Suc_eq nth_append)
  finally show "map bytes v' ! k =
      map (\<lambda>k. if k < unat (j + 1) \<and> 0 \<le> (rs @ [result]) ! k then f k else 0) [0..<unat n] ! k"
    using k by (simp add: suc)
qed

text \<open>
  The loop of a pass on an observed system: one result per block is added to the log, and
  the bytes recorded for a block are its access length if the result of its call is not
  negative, and 0 if it is.
\<close>

lemma loop_bytes:
  fixes g :: "'s \<Rightarrow> ('w \<times> int list) BlockChecker"
  assumes run: "forE 0 (numBlocks (g s)) body s = Inr s'"
    and init: "blockStats (g s) = replicate (unat (numBlocks (g s))) emptyStats"
    and body: "\<And>j t t'. body j t = Inr t' \<Longrightarrow>
        \<exists>result. callLog (g t') = callLog (g t) @ [result]
          \<and> sameSetup (g t) (g t')
          \<and> length (blockStats (g t')) = length (blockStats (g t))
          \<and> map bytes (blockStats (g t')) = (map bytes (blockStats (g t)))
               [unat j := bytes (blockStats (g t) ! unat j)
                  + (if result < 0 then 0 else accessSize (sizeBytes (g t)) (blockSize (g t)) j)]"
  shows "sameSetup (g s) (g s') \<and> length (blockStats (g s')) = unat (numBlocks (g s))
    \<and> (\<exists>rs. callLog (g s') = callLog (g s) @ rs \<and> length rs = unat (numBlocks (g s))
         \<and> map bytes (blockStats (g s')) =
             map (\<lambda>k. if 0 \<le> rs ! k then accessSize (sizeBytes (g s)) (blockSize (g s)) (of_nat k) else 0)
               [0..<unat (numBlocks (g s))])"
proof -
  define c where "c = g s"
  define f where "f k = accessSize (sizeBytes c) (blockSize c) (of_nat k)" for k
  define I where "I j st \<longleftrightarrow>
     sameSetup c (g st) \<and> length (blockStats (g st)) = unat (numBlocks c)
     \<and> (\<exists>rs. callLog (g st) = callLog c @ rs \<and> length rs = unat j
          \<and> map bytes (blockStats (g st)) =
              map (\<lambda>k. if k < unat j \<and> 0 \<le> rs ! k then f k else 0) [0..<unat (numBlocks c)])"
    for j :: size_t and st :: 's
  have I0: "I 0 s"
    using init by (simp add: I_def c_def emptyStats_def map_replicate_const sameSetup_refl)
  have step: "I (j + 1) t'" if j: "j < numBlocks c" and inv: "I j t" and b: "body j t = Inr t'"
    for j t t'
  proof -
    from inv obtain rs where tc: "sameSetup c (g t)" "length (blockStats (g t)) = unat (numBlocks c)"
      "callLog (g t) = callLog c @ rs" "length rs = unat j"
      "map bytes (blockStats (g t)) =
         map (\<lambda>k. if k < unat j \<and> 0 \<le> rs ! k then f k else 0) [0..<unat (numBlocks c)]"
      by (auto simp add: I_def)
    from body [OF b] obtain result where
      r: "callLog (g t') = callLog (g t) @ [result]" "sameSetup (g t) (g t')"
        "length (blockStats (g t')) = length (blockStats (g t))"
        "map bytes (blockStats (g t')) = (map bytes (blockStats (g t)))
              [unat j := bytes (blockStats (g t) ! unat j)
                 + (if result < 0 then 0 else accessSize (sizeBytes (g t)) (blockSize (g t)) j)]"
      by blast
    from tc(1) have fj: "accessSize (sizeBytes (g t)) (blockSize (g t)) j = f (unat j)"
      by (simp add: f_def sameSetup_def)
    have len': "length (blockStats (g t')) = unat (numBlocks c)"
      by (simp only: r(3) tc(2))
    have upd: "map bytes (blockStats (g t')) = (map bytes (blockStats (g t)))
        [unat j := bytes (blockStats (g t) ! unat j) + (if result < 0 then 0 else f (unat j))]"
      by (simp only: r(4) fj)
    have m: "map bytes (blockStats (g t')) =
        map (\<lambda>k. if k < unat (j + 1) \<and> 0 \<le> (rs @ [result]) ! k then f k else 0) [0..<unat (numBlocks c)]"
      by (rule bytes_step [OF tc(2) len' tc(4,5) j upd])
    from j have suc: "unat (j + 1) = Suc (unat j)"
      by (rule unat_Suc_less)
    have l: "callLog (g t') = callLog c @ (rs @ [result])" "length (rs @ [result]) = unat (j + 1)"
      by (simp_all add: r(1) tc(3,4) suc)
    have s: "sameSetup c (g t')"
      using tc(1) r(2) by (rule sameSetup_trans)
    from s len' l m show ?thesis
      unfolding I_def by blast
  qed
  have "I (numBlocks c) s'"
  proof (rule forE_invariant [where I = I, OF run [folded c_def]])
    show "0 \<le> numBlocks c"
      by simp
    show "I 0 s"
      by (rule I0)
    show "I (j + 1) t'" if "0 \<le> j" "j < numBlocks c" "I j t" "body j t = Inr t'" for j t t'
      using that(2,3,4) by (rule step)
  qed
  then obtain rs where e: "sameSetup c (g s')" "length (blockStats (g s')) = unat (numBlocks c)"
    "callLog (g s') = callLog c @ rs" "length rs = unat (numBlocks c)"
    "map bytes (blockStats (g s')) =
       map (\<lambda>k. if k < unat (numBlocks c) \<and> 0 \<le> rs ! k then f k else 0) [0..<unat (numBlocks c)]"
    by (auto simp add: I_def)
  have "map (\<lambda>k. if k < unat (numBlocks c) \<and> 0 \<le> rs ! k then f k else 0) [0..<unat (numBlocks c)]
      = map (\<lambda>k. if 0 \<le> rs ! k then f k else 0) [0..<unat (numBlocks c)]"
    by (rule map_cong) simp_all
  with e(5) have "map bytes (blockStats (g s')) =
      map (\<lambda>k. if 0 \<le> rs ! k then f k else 0) [0..<unat (numBlocks c)]"
    by simp
  with e(1-4) show ?thesis
    unfolding c_def f_def by blast
qed

lemma totalBytes_sort_key: "totalBytes (sort_key f v) = totalBytes v"
proof -
  have "sum_mset (image_mset (\<lambda>r. unat (bytes r)) (mset (sort_key f v)))
      = sum_mset (image_mset (\<lambda>r. unat (bytes r)) (mset v))"
    by simp
  then show ?thesis
    unfolding totalBytes_def by (simp only: mset_map [symmetric] sum_mset_sum_list)
qed

lemma totalBytes_accessLengths:
  assumes "map bytes v = map (\<lambda>k. accessSize sz bs (of_nat k)) [0..<unat n]"
  shows "totalBytes v = sum_list (accessLengths sz bs n)"
proof -
  have "map (\<lambda>r. unat (bytes r)) v = map unat (map bytes v)"
    by simp
  also have "\<dots> = accessLengths sz bs n"
    by (simp add: assms accessLengths_def)
  finally show ?thesis
    by (simp add: totalBytes_def)
qed

lemma newBlockChecker_Inr:
  assumes "newBlockChecker sys file bsize pats ofile w = Inr c"
  shows "sizeBytes c = getFileSize sys file w" and "blockSize c = bsize" and "sizeBytes c \<noteq> 0"
    and "bsize \<noteq> 0" and "calcNumBlocks (sizeBytes c) (blockSize c) = Inr (numBlocks c)"
    and "blockStats c = replicate (unat (numBlocks c)) emptyStats"
    and "world c = w" and "numPasses c = 0" and "outfile c = ofile" and "filename c = file"
  using assms
  by (auto simp add: newBlockChecker_def bindE_Inr_iff calcNumBlocks_def Let_def split: if_splits)

lemma writePass_Inr:
  assumes "writePass sys p c = Inr c'"
  shows "\<exists>c2 fd buf c3 b c4.
      sameSetup c c2 \<and> blockStats c2 = replicate (unat (numBlocks c)) emptyStats
    \<and> world c2 = snd (sys_open sys (filename c) True (snd (getTimeSec sys (world c))))
    \<and> cout c2 = cout c
    \<and> forE 0 (numBlocks c2) (writeBlock sys fd p) (c2, buf) = Inr (c3, b)
    \<and> printPassStats sys False (c3\<lparr>world := sys_close sys fd (world c3)\<rparr>) = Inr c4
    \<and> c' = c4\<lparr>passIndex := passIndex c4 + 1\<rparr>"
proof -
  define t0 where "t0 = getTimeSec sys (world c)"
  define op where "op = sys_open sys (filename c) True (snd t0)"
  define c2 where "c2 = c\<lparr>writePassesRemaining := writePassesRemaining c - 1,
      blockStats := replicate (unat (numBlocks c)) emptyStats,
      lastProgressTime := fst t0, world := snd op\<rparr>"
  from assms obtain c3 b c4 where
    "forE 0 (numBlocks c2) (writeBlock sys (fst op) p) (c2, replicate (unat (blockSize c2)) p) = Inr (c3, b)"
    and "printPassStats sys False (c3\<lparr>world := sys_close sys (fst op) (world c3)\<rparr>) = Inr c4"
    and "c' = c4\<lparr>passIndex := passIndex c4 + 1\<rparr>"
    by (auto simp add: writePass_def Let_def split_beta bindE_Inr_iff t0_def op_def c2_def
        split: if_splits)
  moreover have "sameSetup c c2 \<and> blockStats c2 = replicate (unat (numBlocks c)) emptyStats
    \<and> world c2 = snd (sys_open sys (filename c) True (snd (getTimeSec sys (world c))))
    \<and> cout c2 = cout c"
    by (simp add: c2_def sameSetup_def op_def t0_def)
  ultimately show ?thesis
    by blast
qed

lemma readPass_Inr:
  assumes "readPass sys pattern c = Inr c'"
  shows "\<exists>c2 fd buf ex c3 b x c4.
      sameSetup c c2 \<and> blockStats c2 = replicate (unat (numBlocks c)) emptyStats
    \<and> world c2 = snd (sys_open sys (filename c) False (snd (getTimeSec sys (world c))))
    \<and> cout c2 = cout c
    \<and> forE 0 (numBlocks c2) (readBlock sys fd pattern) (c2, buf, ex) = Inr (c3, b, x)
    \<and> printPassStats sys True (c3\<lparr>world := sys_close sys fd (world c3)\<rparr>) = Inr c4
    \<and> c' = c4\<lparr>passIndex := passIndex c4 + 1\<rparr>"
proof -
  define t0 where "t0 = getTimeSec sys (world c)"
  define op where "op = sys_open sys (filename c) False (snd t0)"
  define c2 where "c2 = c\<lparr>readPassesRemaining := readPassesRemaining c - 1,
      blockStats := replicate (unat (numBlocks c)) emptyStats,
      lastProgressTime := fst t0, world := snd op\<rparr>"
  from assms obtain pv c3 b x c4 where
    "forE 0 (numBlocks c2) (readBlock sys (fst op) pattern)
       (c2, replicate (unat (blockSize c2)) 0, replicate (unat (blockSize c2)) pv) = Inr (c3, b, x)"
    and "printPassStats sys True (c3\<lparr>world := sys_close sys (fst op) (world c3)\<rparr>) = Inr c4"
    and "c' = c4\<lparr>passIndex := passIndex c4 + 1\<rparr>"
    by (auto simp add: readPass_def Let_def split_beta bindE_Inr_iff t0_def op_def c2_def
        split: if_splits)
  moreover have "sameSetup c c2 \<and> blockStats c2 = replicate (unat (numBlocks c)) emptyStats
    \<and> world c2 = snd (sys_open sys (filename c) False (snd (getTimeSec sys (world c))))
    \<and> cout c2 = cout c"
    by (simp add: c2_def sameSetup_def op_def t0_def)
  ultimately show ?thesis
    by blast
qed

text \<open>
  A completed pass on an observed system: its calls add one result per block to the log,
  and the bytes of its records add up to the access lengths of the blocks whose call did
  not fail.
\<close>

lemma pass_bytes:
  fixes g :: "'s \<Rightarrow> ('w \<times> int list) BlockChecker"
  assumes c2: "sameSetup c c2" "blockStats c2 = replicate (unat (numBlocks c)) emptyStats"
      "callLog c2 = callLog c"
    and g: "g s = c2"
    and run: "forE 0 (numBlocks c2) body s = Inr s'"
    and body: "\<And>j t t'. body j t = Inr t' \<Longrightarrow>
        \<exists>result. callLog (g t') = callLog (g t) @ [result]
          \<and> sameSetup (g t) (g t')
          \<and> length (blockStats (g t')) = length (blockStats (g t))
          \<and> map bytes (blockStats (g t')) = (map bytes (blockStats (g t)))
               [unat j := bytes (blockStats (g t) ! unat j)
                  + (if result < 0 then 0 else accessSize (sizeBytes (g t)) (blockSize (g t)) j)]"
    and pps: "printPassStats sys rd ((g s')\<lparr>world := w\<rparr>) = Inr c4"
    and w: "snd w = callLog (g s')"
  shows "\<exists>rs. callLog c4 = callLog c @ rs \<and> length rs = unat (numBlocks c)
    \<and> totalBytes (blockStats c4) =
        sum_list (map (\<lambda>k. if 0 \<le> rs ! k
                            then unat (accessSize (sizeBytes c) (blockSize c) (of_nat k)) else 0)
                    [0..<unat (numBlocks c)])"
proof -
  from c2(1) have eq: "sizeBytes c2 = sizeBytes c" "blockSize c2 = blockSize c" "numBlocks c2 = numBlocks c"
    by (simp_all add: sameSetup_def)
  have init: "blockStats (g s) = replicate (unat (numBlocks (g s))) emptyStats"
    by (simp add: g c2 eq)
  from loop_bytes [where g = g, OF run [folded g] init body]
  obtain rs where l: "sameSetup c2 (g s')" "length (blockStats (g s')) = unat (numBlocks c)"
    "callLog (g s') = callLog c @ rs" "length rs = unat (numBlocks c)"
    "map bytes (blockStats (g s')) =
        map (\<lambda>k. if 0 \<le> rs ! k then accessSize (sizeBytes c) (blockSize c) (of_nat k) else 0)
          [0..<unat (numBlocks c)]"
    by (auto simp add: g c2 eq)
  from l(1) eq have nb: "numBlocks (g s') = numBlocks c"
    by (simp add: sameSetup_def)
  have len: "length (blockStats ((g s')\<lparr>world := w\<rparr>)) = unat (numBlocks ((g s')\<lparr>world := w\<rparr>))"
    by (simp add: l nb)
  note r = printPassStats_Inr [OF pps len]
  from r(3) w l(3) have log: "callLog c4 = callLog c @ rs"
    by (simp add: callLog_def)
  from r(2) have "totalBytes (blockStats c4) = totalBytes (blockStats (g s'))"
    by (simp add: totalBytes_sort_key)
  also have "\<dots> = sum_list (map unat (map bytes (blockStats (g s'))))"
    by (simp add: totalBytes_def comp_def)
  also have "\<dots> = sum_list (map (\<lambda>k. if 0 \<le> rs ! k
                            then unat (accessSize (sizeBytes c) (blockSize c) (of_nat k)) else 0)
                    [0..<unat (numBlocks c)])"
    unfolding l(5) by (simp add: comp_def if_distrib cong: if_cong)
  finally show ?thesis
    using log l(4) by simp
qed

subsection \<open>Pass executor: a pass completes\<close>

lemma writeBlock_frame:
  assumes "writeBlock sys fd p j (c, buf) = Inr (c', buf')"
  shows "sameSetup c c'" and "length (blockStats c') = length (blockStats c)"
    and "length buf' = length buf"
    and "passSummaries (cout c') = passSummaries (cout c)"
    and "slowWarnings (cout c') = slowWarnings (cout c)"
proof -
  from writeBlock_Inr [OF assms] obtain result elapsed a w c2 where
    i: "initBlock buf j p = Inr buf'"
    and r: "recordWrite (fp_round sys) result j elapsed a (c\<lparr>world := w\<rparr>) = Inr c2"
    and pp: "printProgress sys j c2 = Inr c'"
    by blast
  note rw = recordWrite_Inr [OF r]
  note q = printProgress_frame [OF pp]
  show "sameSetup c c'"
    using sameSetup_world [of c w] rw(5) q(4) by (blast intro: sameSetup_trans)
  from q(1) rw(1,2) show "length (blockStats c') = length (blockStats c)"
    by simp
  from initBlock_length(1) [OF i] show "length buf' = length buf" .
  from q(6,8) rw(7) show "passSummaries (cout c') = passSummaries (cout c)"
    and "slowWarnings (cout c') = slowWarnings (cout c)"
    by simp_all
qed

lemma readBlock_frame:
  assumes "readBlock sys fd pattern j (c, buf, ex) = Inr (c', buf', ex')"
  shows "sameSetup c c'" and "length (blockStats c') = length (blockStats c)"
    and "length buf' = length buf" and "length ex' = length ex"
    and "passSummaries (cout c') = passSummaries (cout c)"
    and "slowWarnings (cout c') = slowWarnings (cout c)"
proof -
  from readBlock_Inr [OF assms] obtain p result elapsed a w c2 where
    i: "initBlock ex j p = Inr ex'"
    and call: "readCall sys fd j buf c = (result, elapsed, a, buf', w)"
    and r: "recordRead (fp_round sys) pattern result j buf' ex' elapsed a (c\<lparr>world := w\<rparr>) = Inr c2"
    and pp: "printProgress sys j c2 = Inr c'"
    by blast
  note rw = recordRead_Inr [OF r]
  note q = printProgress_frame [OF pp]
  show "sameSetup c c'"
    using sameSetup_world [of c w] rw(5) q(4) by (blast intro: sameSetup_trans)
  from q(1) rw(2) show "length (blockStats c') = length (blockStats c)"
    by simp
  from readCall_eq(3) [OF call] show "length buf' = length buf"
    by (simp add: length_storeRead)
  from initBlock_length(1) [OF i] show "length ex' = length ex" .
  from q(6,8) rw(7,8) show "passSummaries (cout c') = passSummaries (cout c)"
    and "slowWarnings (cout c') = slowWarnings (cout c)"
    by simp_all
qed

lemma writeLoop_total:
  assumes buf: "8 \<le> length buf" and len: "length (blockStats c) = unat (numBlocks c)"
    and prog: "progressSafe c"
  shows "\<exists>c' buf'. forE 0 (numBlocks c) (writeBlock sys fd p) (c, buf) = Inr (c', buf')
     \<and> sameSetup c c' \<and> length (blockStats c') = unat (numBlocks c)"
proof -
  define I where "I j st \<longleftrightarrow> sameSetup c (fst st) \<and> length (blockStats (fst st)) = unat (numBlocks c)
      \<and> length (snd st) = length buf"
    for j :: size_t and st :: "'a BlockChecker \<times> byte list"
  have "\<exists>st. forE 0 (numBlocks c) (writeBlock sys fd p) (c, buf) = Inr st \<and> I (numBlocks c) st"
  proof (rule forE_total)
    show "0 \<le> numBlocks c"
      by simp
    show "I 0 (c, buf)"
      by (simp add: I_def sameSetup_refl len)
  next
    fix j :: size_t and t :: "'a BlockChecker \<times> byte list"
    assume j: "j < numBlocks c" and inv: "I j t"
    obtain tc tb where t: "t = (tc, tb)"
      by (cases t)
    from inv have tc: "sameSetup c tc" "length (blockStats tc) = unat (numBlocks c)"
      "length tb = length buf"
      by (simp_all add: I_def t)
    from j tc(2) have "unat j < length (blockStats tc)"
      by (simp add: word_less_nat_alt)
    moreover from buf tc(3) have "8 \<le> length tb"
      by simp
    moreover from tc(1) prog have "progressSafe tc"
      by (rule progressSafe_sameSetup)
    ultimately obtain c' buffer where run: "writeBlock sys fd p j (tc, tb) = Inr (c', buffer)"
      using writeBlock_total by blast
    note f = writeBlock_frame [OF run]
    from tc(1) f(1) have "sameSetup c c'"
      by (rule sameSetup_trans)
    with f(2,3) tc(2,3) have "I (j + 1) (c', buffer)"
      by (simp add: I_def)
    with run show "\<exists>t'. writeBlock sys fd p j t = Inr t' \<and> I (j + 1) t'"
      unfolding t by blast
  qed
  then show ?thesis
    by (auto simp add: I_def)
qed

lemma readLoop_total:
  assumes bs: "8 \<le> unat (blockSize c)" and buf: "length buf = unat (blockSize c)"
    and ex: "length ex = unat (blockSize c)"
    and len: "length (blockStats c) = unat (numBlocks c)" and prog: "progressSafe c"
  shows "\<exists>c' buf' ex'. forE 0 (numBlocks c) (readBlock sys fd (Some p)) (c, buf, ex) = Inr (c', buf', ex')
     \<and> sameSetup c c' \<and> length (blockStats c') = unat (numBlocks c)"
proof -
  define I where "I j st \<longleftrightarrow> sameSetup c (fst st) \<and> length (blockStats (fst st)) = unat (numBlocks c)
      \<and> length (fst (snd st)) = unat (blockSize c) \<and> length (snd (snd st)) = unat (blockSize c)"
    for j :: size_t and st :: "'a BlockChecker \<times> byte list \<times> byte list"
  have "\<exists>st. forE 0 (numBlocks c) (readBlock sys fd (Some p)) (c, buf, ex) = Inr st \<and> I (numBlocks c) st"
  proof (rule forE_total)
    show "0 \<le> numBlocks c"
      by simp
    show "I 0 (c, buf, ex)"
      by (simp add: I_def sameSetup_refl len buf ex)
  next
    fix j :: size_t and t :: "'a BlockChecker \<times> byte list \<times> byte list"
    assume j: "j < numBlocks c" and inv: "I j t"
    obtain tc tb tx where t: "t = (tc, tb, tx)"
      by (cases t)
    from inv have tc: "sameSetup c tc" "length (blockStats tc) = unat (numBlocks c)"
      "length tb = unat (blockSize c)" "length tx = unat (blockSize c)"
      by (simp_all add: I_def t)
    from tc(1) have b: "blockSize tc = blockSize c"
      by (simp add: sameSetup_def)
    from j tc(2) have "unat j < length (blockStats tc)"
      by (simp add: word_less_nat_alt)
    moreover from bs tc(3,4) b have "8 \<le> unat (blockSize tc)" "length tb = unat (blockSize tc)"
      "length tx = unat (blockSize tc)"
      by simp_all
    moreover from tc(1) prog have "progressSafe tc"
      by (rule progressSafe_sameSetup)
    ultimately obtain c' buffer expected
      where run: "readBlock sys fd (Some p) j (tc, tb, tx) = Inr (c', buffer, expected)"
      using readBlock_total by blast
    note f = readBlock_frame [OF run]
    from tc(1) f(1) have "sameSetup c c'"
      by (rule sameSetup_trans)
    with f(2,3,4) tc(2,3,4) have "I (j + 1) (c', buffer, expected)"
      by (simp add: I_def)
    with run show "\<exists>t'. readBlock sys fd (Some p) j t = Inr t' \<and> I (j + 1) t'"
      unfolding t by blast
  qed
  then show ?thesis
    by (auto simp add: I_def)
qed

text \<open>
  A write pass completes when there is a block, the block size is at least the 8 bytes
  \<^verbatim>\<open>initBlock\<close> writes, the progress line can be printed, the device can be opened and the
  per-block file can be created. Failing \<^verbatim>\<open>write\<close> calls do not end the pass.
\<close>

lemma writePass_total:
  assumes pos: "0 < unat (numBlocks c)" and bs: "8 \<le> unat (blockSize c)"
    and prog: "progressSafe c" and op: "opens sys True c" and out: "outfileOK sys False c"
  shows "\<exists>c'. writePass sys p c = Inr c'"
proof -
  define t0 where "t0 = getTimeSec sys (world c)"
  define fd where "fd = sys_open sys (filename c) True (snd t0)"
  define c2 where "c2 = c\<lparr>writePassesRemaining := writePassesRemaining c - 1,
      blockStats := replicate (unat (numBlocks c)) emptyStats,
      lastProgressTime := fst t0, world := snd fd\<rparr>"
  have s2: "sameSetup c c2" and l2: "length (blockStats c2) = unat (numBlocks c2)"
    by (simp_all add: c2_def sameSetup_def)
  from s2 prog have p2: "progressSafe c2"
    by (rule progressSafe_sameSetup)
  from bs have b2: "8 \<le> length (replicate (unat (blockSize c2)) p)"
    by (simp add: c2_def)
  from writeLoop_total [OF b2 l2 p2] obtain c3 b where
    loop: "forE 0 (numBlocks c2) (writeBlock sys (fst fd) p) (c2, replicate (unat (blockSize c2)) p)
             = Inr (c3, b)"
    and s3: "sameSetup c2 c3" and l3: "length (blockStats c3) = unat (numBlocks c2)"
    by blast
  from s2 s3 have s: "sameSetup c c3"
    by (rule sameSetup_trans)
  define c3' where "c3' = c3\<lparr>world := sys_close sys (fst fd) (world c3)\<rparr>"
  from s have e: "numBlocks c3' = numBlocks c" "outfile c3' = outfile c" "passIndex c3' = passIndex c"
    "sizeBytes c3' = sizeBytes c"
    by (simp_all add: c3'_def sameSetup_def)
  from l3 s2 s have "length (blockStats c3') = unat (numBlocks c3')"
    by (simp add: c3'_def sameSetup_def)
  moreover from pos have "0 < unat (numBlocks c3')"
    by (simp add: e)
  moreover from out have "outfile c3' = [] \<or> ofstream_ok sys
      (outfilename (outfile c3') (if False then ''read'' else ''write'') (passIndex c3') (sizeBytes c3'))
      (world c3')"
    by (auto simp add: outfileOK_def e)
  ultimately obtain c4 where pps: "printPassStats sys False c3' = Inr c4"
    using printPassStats_total by blast
  from op have "\<not> fst fd < 0"
    by (simp add: opens_def fd_def t0_def)
  with loop pps have "writePass sys p c = Inr (c4\<lparr>passIndex := passIndex c4 + 1\<rparr>)"
    by (simp add: writePass_def Let_def split_beta bindE_def t0_def [symmetric] fd_def [symmetric]
          c2_def [symmetric] c3'_def [symmetric])
  then show ?thesis
    by blast
qed

text \<open>A read pass with a pattern completes under the same conditions.\<close>

lemma readPass_total:
  assumes pos: "0 < unat (numBlocks c)" and bs: "8 \<le> unat (blockSize c)"
    and prog: "progressSafe c" and op: "opens sys False c" and out: "outfileOK sys True c"
  shows "\<exists>c'. readPass sys (Some p) c = Inr c'"
proof -
  define t0 where "t0 = getTimeSec sys (world c)"
  define fd where "fd = sys_open sys (filename c) False (snd t0)"
  define c2 where "c2 = c\<lparr>readPassesRemaining := readPassesRemaining c - 1,
      blockStats := replicate (unat (numBlocks c)) emptyStats,
      lastProgressTime := fst t0, world := snd fd\<rparr>"
  have s2: "sameSetup c c2" and l2: "length (blockStats c2) = unat (numBlocks c2)"
    by (simp_all add: c2_def sameSetup_def)
  from s2 prog have p2: "progressSafe c2"
    by (rule progressSafe_sameSetup)
  from bs have b2: "8 \<le> unat (blockSize c2)"
    "length (replicate (unat (blockSize c2)) (0 :: byte)) = unat (blockSize c2)"
    "length (replicate (unat (blockSize c2)) p) = unat (blockSize c2)"
    by (simp_all add: c2_def)
  from readLoop_total [OF b2 l2 p2] obtain c3 b x where
    loop: "forE 0 (numBlocks c2) (readBlock sys (fst fd) (Some p))
             (c2, replicate (unat (blockSize c2)) 0, replicate (unat (blockSize c2)) p)
             = Inr (c3, b, x)"
    and s3: "sameSetup c2 c3" and l3: "length (blockStats c3) = unat (numBlocks c2)"
    by blast
  from s2 s3 have s: "sameSetup c c3"
    by (rule sameSetup_trans)
  define c3' where "c3' = c3\<lparr>world := sys_close sys (fst fd) (world c3)\<rparr>"
  from s have e: "numBlocks c3' = numBlocks c" "outfile c3' = outfile c" "passIndex c3' = passIndex c"
    "sizeBytes c3' = sizeBytes c"
    by (simp_all add: c3'_def sameSetup_def)
  from l3 s2 s have "length (blockStats c3') = unat (numBlocks c3')"
    by (simp add: c3'_def sameSetup_def)
  moreover from pos have "0 < unat (numBlocks c3')"
    by (simp add: e)
  moreover from out have "outfile c3' = [] \<or> ofstream_ok sys
      (outfilename (outfile c3') (if True then ''read'' else ''write'') (passIndex c3') (sizeBytes c3'))
      (world c3')"
    by (auto simp add: outfileOK_def e)
  ultimately obtain c4 where pps: "printPassStats sys True c3' = Inr c4"
    using printPassStats_total by blast
  from op have "\<not> fst fd < 0"
    by (simp add: opens_def fd_def t0_def)
  with loop pps have "readPass sys (Some p) c = Inr (c4\<lparr>passIndex := passIndex c4 + 1\<rparr>)"
    by (simp add: readPass_def Let_def split_beta bindE_def deref_def t0_def [symmetric]
          fd_def [symmetric] c2_def [symmetric] c3'_def [symmetric])
  then show ?thesis
    by blast
qed

subsection \<open>Pass executor: the bytes of a completed pass, and its calls\<close>

lemma writePass_logged:
  assumes "writePass (logged sys) p c = Inr c'"
  shows "\<exists>rs. callLog c' = callLog c @ rs \<and> length rs = unat (numBlocks c)
    \<and> totalBytes (blockStats c') =
        sum_list (map (\<lambda>k. if 0 \<le> rs ! k
                            then unat (accessSize (sizeBytes c) (blockSize c) (of_nat k)) else 0)
                    [0..<unat (numBlocks c)])"
proof -
  from writePass_Inr [OF assms] obtain c2 fd buf c3 b c4 where
    c2: "sameSetup c c2" "blockStats c2 = replicate (unat (numBlocks c)) emptyStats"
      "world c2 = snd (sys_open (logged sys) (filename c) True (snd (getTimeSec (logged sys) (world c))))"
    and run: "forE 0 (numBlocks c2) (writeBlock (logged sys) fd p) (c2, buf) = Inr (c3, b)"
    and pps: "printPassStats (logged sys) False (c3\<lparr>world := sys_close (logged sys) fd (world c3)\<rparr>) = Inr c4"
    and c': "c' = c4\<lparr>passIndex := passIndex c4 + 1\<rparr>"
    by blast
  from c2(3) have l2: "callLog c2 = callLog c"
    by (simp add: callLog_def logged_sys_open logged_getTimeSec)
  have g: "fst (c2, buf) = c2"
    by simp
  from pps have pps': "printPassStats (logged sys) False
      ((fst (c3, b))\<lparr>world := sys_close (logged sys) fd (world c3)\<rparr>) = Inr c4"
    by simp
  have w: "snd (sys_close (logged sys) fd (world c3)) = callLog (fst (c3, b))"
    by (simp add: logged_sys_close callLog_def)
  from pass_bytes [where g = fst, OF c2(1,2) l2 g run writeBlock_logged pps' w]
  show ?thesis
    by (simp add: c' callLog_def)
qed

lemma readPass_logged:
  assumes "readPass (logged sys) pattern c = Inr c'"
  shows "\<exists>rs. callLog c' = callLog c @ rs \<and> length rs = unat (numBlocks c)
    \<and> totalBytes (blockStats c') =
        sum_list (map (\<lambda>k. if 0 \<le> rs ! k
                            then unat (accessSize (sizeBytes c) (blockSize c) (of_nat k)) else 0)
                    [0..<unat (numBlocks c)])"
proof -
  from readPass_Inr [OF assms] obtain c2 fd buf ex c3 b x c4 where
    c2: "sameSetup c c2" "blockStats c2 = replicate (unat (numBlocks c)) emptyStats"
      "world c2 = snd (sys_open (logged sys) (filename c) False (snd (getTimeSec (logged sys) (world c))))"
    and run: "forE 0 (numBlocks c2) (readBlock (logged sys) fd pattern) (c2, buf, ex) = Inr (c3, b, x)"
    and pps: "printPassStats (logged sys) True (c3\<lparr>world := sys_close (logged sys) fd (world c3)\<rparr>) = Inr c4"
    and c': "c' = c4\<lparr>passIndex := passIndex c4 + 1\<rparr>"
    by blast
  from c2(3) have l2: "callLog c2 = callLog c"
    by (simp add: callLog_def logged_sys_open logged_getTimeSec)
  have g: "fst (c2, buf, ex) = c2"
    by simp
  from pps have pps': "printPassStats (logged sys) True
      ((fst (c3, b, x))\<lparr>world := sys_close (logged sys) fd (world c3)\<rparr>) = Inr c4"
    by simp
  have w: "snd (sys_close (logged sys) fd (world c3)) = callLog (fst (c3, b, x))"
    by (simp add: logged_sys_close callLog_def)
  from pass_bytes [where g = fst, OF c2(1,2) l2 g run readBlock_logged pps' w]
  show ?thesis
    by (simp add: c' callLog_def)
qed

lemma bytes_without_failure:
  assumes sz: "0 < sz" and bs: "0 < bs"
    and nowrap: "unat sz + unat bs - 1 < 2 ^ 64"
    and nb: "calcNumBlocks sz bs = Inr n"
    and log: "l' = l @ rs" and len: "length rs = unat n"
    and ok: "\<forall>r\<in>set (drop (length l) l'). 0 \<le> r"
  shows "sum_list (map (\<lambda>k. if 0 \<le> rs ! k then unat (accessSize sz bs (of_nat k)) else 0) [0..<unat n])
     = unat sz"
proof -
  from nb bs have n: "unat n = (unat sz + unat bs - 1) div unat bs"
    using unat_numBlocks [OF bs nowrap] by (auto simp add: calcNumBlocks_def split: if_splits)
  from ok log have "\<forall>r\<in>set rs. 0 \<le> r"
    by simp
  with len have "map (\<lambda>k. if 0 \<le> rs ! k then unat (accessSize sz bs (of_nat k)) else 0) [0..<unat n]
      = map (\<lambda>k. unat (accessSize sz bs (of_nat k))) [0..<unat n]"
    by (intro map_cong) simp_all
  then have "sum_list (map (\<lambda>k. if 0 \<le> rs ! k then unat (accessSize sz bs (of_nat k)) else 0) [0..<unat n])
      = sum_list (accessLengths sz bs n)"
    by (simp only: accessLengths_def)
  also have "\<dots> = unat sz"
    by (rule sum_accessLengths [OF sz bs nowrap n])
  finally show ?thesis .
qed

lemma numBlocks_pos:
  assumes sz: "0 < sz" and bs: "0 < bs"
    and nowrap: "unat sz + unat bs - 1 < 2 ^ 64"
    and nb: "calcNumBlocks sz bs = Inr n"
  shows "0 < unat n"
proof -
  from nb bs have n: "unat n = (unat sz + unat bs - 1) div unat bs"
    using unat_numBlocks [OF bs nowrap] by (auto simp add: calcNumBlocks_def split: if_splits)
  from sz bs have "0 < unat sz" "0 < unat bs"
    by (simp_all add: word_less_nat_alt)
  then have "unat bs \<le> unat sz + unat bs - 1"
    by simp
  with \<open>0 < unat bs\<close> have "0 < (unat sz + unat bs - 1) div unat bs"
    by (simp add: div_greater_zero_iff)
  with n show ?thesis
    by simp
qed

subsection \<open>Pass executor: the observed pass is the pass\<close>

text \<open>
  Observing a system changes nothing the checker does: every step of a pass on
  \<open>logged sys\<close>, with the list of results dropped, is the step on \<open>sys\<close>, and so is the pass.
\<close>

lemma forget_observe: "forget (observe c) = c"
  by (simp add: forget_def observe_def)

lemma forE_sim:
  assumes "\<And>j s. map_sum id h (body1 j s) = body2 j (h s)"
  shows "map_sum id h (forE i n body1 s) = forE i n body2 (h s)"
  using assms
proof (induction i n body1 s rule: forE.induct)
  case (1 i n body1 s)
  show ?case
  proof (cases "i < n")
    case True
    show ?thesis
    proof (cases "body1 i s")
      case (Inl e)
      with "1.prems" [of i s] have "body2 i (h s) = Inl e"
        by simp
      with True Inl show ?thesis
        by (simp add: forE.simps [of i n])
    next
      case (Inr s1)
      with "1.prems" [of i s] have b2: "body2 i (h s) = Inr (h s1)"
        by simp
      from "1.IH" [OF True Inr "1.prems"] True Inr b2 show ?thesis
        by (simp add: forE.simps [of i n])
    qed
  next
    case False
    then show ?thesis
      by (simp add: forE.simps [of i n])
  qed
qed

lemma forget_sel:
  "filename (forget c) = filename c" "outfile (forget c) = outfile c"
  "blockSize (forget c) = blockSize c" "sizeBytes (forget c) = sizeBytes c"
  "numBlocks (forget c) = numBlocks c" "patterns (forget c) = patterns c"
  "blockStats (forget c) = blockStats c" "totalWrite (forget c) = totalWrite c"
  "totalRead (forget c) = totalRead c" "lastProgressTime (forget c) = lastProgressTime c"
  "passIndex (forget c) = passIndex c" "readPassesRemaining (forget c) = readPassesRemaining c"
  "writePassesRemaining (forget c) = writePassesRemaining c" "numPasses (forget c) = numPasses c"
  "world (forget c) = fst (world c)" "cout (forget c) = cout c"
  by (simp_all add: forget_def)

lemma progressTotals_forget: "progressTotals rnd (forget c) = progressTotals rnd c"
  by (simp add: progressTotals_def forget_sel cong: if_cong)

lemma progressLine_forget: "progressLine rnd pre tr tw j (forget c) = progressLine rnd pre tr tw j c"
  by (simp add: progressLine_def forget_sel getReadBytesPerSecond_def getWriteBytesPerSecond_def cong: if_cong)

lemma printProgress_sim:
  "map_sum id forget (printProgress (logged sys) j c) = printProgress sys j (forget c)"
proof -
  obtain w l where w: "world c = (w, l)"
    by (cases "world c")
  obtain now w' where t: "getTimeSec sys w = (now, w')"
    by (cases "getTimeSec sys w")
  have f: "forget (c\<lparr>world := (w', l)\<rparr>) = (forget c)\<lparr>world := w'\<rparr>"
    by (simp add: forget_def)
  have pt: "progressTotals rnd (c\<lparr>world := (w', l)\<rparr>) = progressTotals rnd ((forget c)\<lparr>world := w'\<rparr>)" for rnd
    by (simp only: f [symmetric] progressTotals_forget)
  have pl: "progressLine rnd pre tr tw j (c\<lparr>world := (w', l)\<rparr>)
      = progressLine rnd pre tr tw j ((forget c)\<lparr>world := w'\<rparr>)" for rnd pre tr tw
    by (simp only: f [symmetric] progressLine_forget)
  have fw: "world (forget c) = w" "lastProgressTime (forget c) = lastProgressTime c"
    by (simp_all add: forget_def w)
  show ?thesis
  proof (cases "progressTotals (fp_round sys) ((forget c)\<lparr>world := w'\<rparr>)")
    case (Inl e)
    then show ?thesis
      by (simp add: printProgress_def logged_def w t fw pt Let_def bindE_def f)
  next
    case (Inr r)
    obtain pre tr tw where r: "r = (pre, tr, tw)"
      by (cases r)
    from Inr show ?thesis
      by (simp add: printProgress_def logged_def w t fw pt pl Let_def bindE_def f r)
        (simp add: forget_def print_def)
  qed
qed


lemma bindE_sim:
  assumes "map_sum id g m1 = m2"
    and "\<And>x. m1 = Inr x \<Longrightarrow> map_sum id h (f1 x) = f2 (g x)"
  shows "map_sum id h (bindE m1 f1) = bindE m2 f2"
  using assms by (cases m1) (auto simp add: bindE_def)

lemma forget_print: "forget (print e c) = print e (forget c)"
  by (simp add: forget_def print_def)

lemma forget_world: "forget (c\<lparr>world := (w, l)\<rparr>) = (forget c)\<lparr>world := w\<rparr>"
  by (simp add: forget_def)

lemma countError_sim: "map_sum id forget (countError read j c) = countError read j (forget c)"
  by (cases "vec_modify (blockStats c) j (\<lambda>r. r\<lparr>errors := errors r + 1\<rparr>)")
    (simp_all add: countError_def bindE_def forget_def)

lemma addTransfer_sim:
  "map_sum id forget (addTransfer rnd read j e a c) = addTransfer rnd read j e a (forget c)"
  by (cases "vec_modify (blockStats c) j
        (\<lambda>r. r\<lparr>time := fadd rnd (time r) e, bytes := bytes r + a\<rparr>)")
    (simp_all add: addTransfer_def bindE_def forget_def)

lemma verifyBlock_sim:
  "map_sum id forget (verifyBlock j buf ex c) = verifyBlock j buf ex (forget c)"
proof (cases "firstMismatch 0 (blockSize c) buf ex")
  case (Inl e)
  then show ?thesis
    by (simp add: verifyBlock_def bindE_def forget_sel)
next
  case (Inr m)
  then show ?thesis
    by (cases m) (auto simp add: verifyBlock_def bindE_def forget_sel countError_sim forget_print)
qed

lemma recordWrite_sim:
  "map_sum id forget (recordWrite rnd r j e a c) = recordWrite rnd r j e a (forget c)"
  by (simp add: recordWrite_def countError_sim addTransfer_sim)

lemma recordRead_sim:
  "map_sum id forget (recordRead rnd pattern r j buf ex e a c)
     = recordRead rnd pattern r j buf ex e a (forget c)"
proof (cases "r < 0")
  case True
  then show ?thesis
    by (simp add: recordRead_def countError_sim)
next
  case False
  have "map_sum id forget
      (bindE (if pattern \<noteq> None then verifyBlock j buf ex c else Inr c) (addTransfer rnd True j e a))
    = bindE (if pattern \<noteq> None then verifyBlock j buf ex (forget c) else Inr (forget c))
        (addTransfer rnd True j e a)"
    by (rule bindE_sim [where g = forget]) (simp_all add: verifyBlock_sim addTransfer_sim)
  with False show ?thesis
    by (simp add: recordRead_def)
qed

lemma writeCall_sim:
  "writeCall (logged sys) fd j buf c
     = (case writeCall sys fd j buf (forget c) of
          (r, e, a, w) \<Rightarrow> (r, e, a, (w, snd (world c) @ [r])))"
  by (cases "world c") (simp add: writeCall_def logged_def forget_sel split_beta Let_def)

lemma readCall_sim:
  "readCall (logged sys) fd j buf c
     = (case readCall sys fd j buf (forget c) of
          (r, e, a, b, w) \<Rightarrow> (r, e, a, b, (w, snd (world c) @ [r])))"
  by (cases "world c") (simp add: readCall_def logged_def forget_sel split_beta Let_def)

lemma logged_fp_round: "fp_round (logged sys) = fp_round sys"
  by (simp add: logged_def)

lemma writeBlock_sim:
  "map_sum id (map_prod forget id) (writeBlock (logged sys) fd p j st)
     = writeBlock sys fd p j (map_prod forget id st)"
proof -
  obtain c buf0 where st: "st = (c, buf0)"
    by (cases st)
  show ?thesis
  proof (cases "initBlock buf0 j p")
    case (Inl e)
    then show ?thesis
      by (simp add: st writeBlock_def bindE_def)
  next
    case (Inr buf)
    obtain r e a w where wc: "writeCall sys fd j buf (forget c) = (r, e, a, w)"
      by (cases "writeCall sys fd j buf (forget c)")
    have "map_sum id (map_prod forget id)
        (bindE (recordWrite (fp_round sys) r j e a (c\<lparr>world := (w, snd (world c) @ [r])\<rparr>))
           (\<lambda>c2. bindE (printProgress (logged sys) j c2) (\<lambda>c3. Inr (c3, buf))))
      = bindE (recordWrite (fp_round sys) r j e a ((forget c)\<lparr>world := w\<rparr>))
           (\<lambda>c2. bindE (printProgress sys j c2) (\<lambda>c3. Inr (c3, buf)))"
    proof (rule bindE_sim [where g = forget])
      show "map_sum id forget (recordWrite (fp_round sys) r j e a (c\<lparr>world := (w, snd (world c) @ [r])\<rparr>))
          = recordWrite (fp_round sys) r j e a ((forget c)\<lparr>world := w\<rparr>)"
        by (simp only: recordWrite_sim forget_world)
      show "map_sum id (map_prod forget id) (bindE (printProgress (logged sys) j c2) (\<lambda>c3. Inr (c3, buf)))
          = bindE (printProgress sys j (forget c2)) (\<lambda>c3. Inr (c3, buf))" for c2
        by (rule bindE_sim [where g = forget]) (simp_all add: printProgress_sim)
    qed
    with Inr wc show ?thesis
      by (simp add: st writeBlock_def writeCall_sim logged_fp_round) (simp add: bindE_def)
  qed
qed

lemma readBlock_sim:
  "map_sum id (map_prod forget id) (readBlock (logged sys) fd pattern j st)
     = readBlock sys fd pattern j (map_prod forget id st)"
proof -
  obtain c buf0 ex0 where st: "st = (c, buf0, ex0)"
    by (cases st)
  show ?thesis
  proof (cases pattern)
    case None
    then show ?thesis
      by (simp add: st readBlock_def bindE_def deref_def)
  next
    case (Some pv)
    show ?thesis
    proof (cases "initBlock ex0 j pv")
      case (Inl e)
      with Some show ?thesis
        by (simp add: st readBlock_def bindE_def deref_def)
    next
      case (Inr ex)
      obtain r e a b w where rc: "readCall sys fd j buf0 (forget c) = (r, e, a, b, w)"
        by (cases "readCall sys fd j buf0 (forget c)")
      have "map_sum id (map_prod forget id)
          (bindE (recordRead (fp_round sys) pattern r j b ex e a (c\<lparr>world := (w, snd (world c) @ [r])\<rparr>))
             (\<lambda>c2. bindE (printProgress (logged sys) j c2) (\<lambda>c3. Inr (c3, b, ex))))
        = bindE (recordRead (fp_round sys) pattern r j b ex e a ((forget c)\<lparr>world := w\<rparr>))
             (\<lambda>c2. bindE (printProgress sys j c2) (\<lambda>c3. Inr (c3, b, ex)))"
      proof (rule bindE_sim [where g = forget])
        show "map_sum id forget
            (recordRead (fp_round sys) pattern r j b ex e a (c\<lparr>world := (w, snd (world c) @ [r])\<rparr>))
          = recordRead (fp_round sys) pattern r j b ex e a ((forget c)\<lparr>world := w\<rparr>)"
          by (simp only: recordRead_sim forget_world)
        show "map_sum id (map_prod forget id)
            (bindE (printProgress (logged sys) j c2) (\<lambda>c3. Inr (c3, b, ex)))
          = bindE (printProgress sys j (forget c2)) (\<lambda>c3. Inr (c3, b, ex))" for c2
          by (rule bindE_sim [where g = forget]) (simp_all add: printProgress_sim)
      qed
      with Some Inr rc show ?thesis
        by (simp add: st readBlock_def readCall_sim logged_fp_round) (simp add: bindE_def deref_def)
    qed
  qed
qed

lemma warnSlow_sim:
  "map_sum id forget (warnSlow rnd ps med c) = warnSlow rnd ps med (forget c)"
proof (induction ps arbitrary: c)
  case Nil
  show ?case
    by simp
next
  case (Cons percent ps)
  show ?case
    by (cases "countSlow rnd (blockStats c) (numBlocks c) (fdiv rnd (fmul rnd med percent) 100) 0")
      (auto simp add: bindE_def forget_sel Cons.IH [unfolded id_def] forget_print)
qed

lemma writeOutfile_sim:
  "map_sum id forget (writeOutfile (logged sys) rw c) = writeOutfile sys rw (forget c)"
  by (cases "world c"; cases "csvLines (numBlocks c) (blockStats c)")
    (simp_all add: writeOutfile_def logged_def forget_sel forget_print bindE_def Let_def)

lemma forget_blockStats: "forget (c\<lparr>blockStats := v\<rparr>) = (forget c)\<lparr>blockStats := v\<rparr>"
  by (simp add: forget_def)

lemma collectStats_sim:
  "map_sum id forget (collectStats rnd rw c) = collectStats rnd rw (forget c)"
proof -
  define c1 where "c1 = c\<lparr>blockStats := sort_key (getRateMB rnd) (blockStats c)\<rparr>"
  have f: "(forget c)\<lparr>blockStats := sort_key (getRateMB rnd) (blockStats (forget c))\<rparr> = forget c1"
    by (simp add: c1_def forget_def)
  show ?thesis
    unfolding collectStats_def Let_def f c1_def [symmetric]
    by (intro bindE_sim [where g = id])
      (simp_all add: forget_sel warnSlow_sim forget_print sum.map_ident sum.map_id
        del: warnSlow.simps)
qed

lemma printPassStats_sim:
  "map_sum id forget (printPassStats (logged sys) read c) = printPassStats sys read (forget c)"
  unfolding printPassStats_def Let_def
  by (rule bindE_sim [where g = forget]) (simp_all add: writeOutfile_sim collectStats_sim logged_fp_round)


lemma logged_getTimeSec_eq:
  "getTimeSec (logged sys) (w, l) = (fst (getTimeSec sys w), snd (getTimeSec sys w), l)"
  by (simp add: logged_def split_beta)

lemma logged_sys_open_eq:
  "sys_open (logged sys) name wr (w, l)
     = (fst (sys_open sys name wr w), snd (sys_open sys name wr w), l)"
  by (simp add: logged_def split_beta)

lemma forget_close:
  "forget (c\<lparr>world := sys_close (logged sys) fd (world c)\<rparr>)
     = (forget c)\<lparr>world := sys_close sys fd (world (forget c))\<rparr>"
  by (cases "world c") (simp add: forget_def logged_def)

lemma forget_passIndex:
  "forget (c\<lparr>passIndex := passIndex c + 1\<rparr>) = (forget c)\<lparr>passIndex := passIndex (forget c) + 1\<rparr>"
  by (simp add: forget_def)

lemma pass_end_sim:
  "map_sum id forget
     (bindE (printPassStats (logged sys) read (c3\<lparr>world := sys_close (logged sys) fd (world c3)\<rparr>))
        (\<lambda>c4. Inr (c4\<lparr>passIndex := passIndex c4 + 1\<rparr>)))
   = bindE (printPassStats sys read ((forget c3)\<lparr>world := sys_close sys fd (world (forget c3))\<rparr>))
        (\<lambda>c4. Inr (c4\<lparr>passIndex := passIndex c4 + 1\<rparr>))"
  by (rule bindE_sim [where g = forget])
    (simp_all only: printPassStats_sim forget_close forget_passIndex map_sum.simps)

lemma writePass_sim:
  "map_sum id forget (writePass (logged sys) p c) = writePass sys p (forget c)"
proof -
  obtain w l where w: "world c = (w, l)"
    by (cases "world c")
  obtain t0 w1 where t: "getTimeSec sys w = (t0, w1)"
    by (cases "getTimeSec sys w")
  obtain fd w2 where opn: "sys_open sys (filename c) True w1 = (fd, w2)"
    by (cases "sys_open sys (filename c) True w1")
  define c2 where "c2 = c\<lparr>writePassesRemaining := writePassesRemaining c - 1,
      blockStats := replicate (unat (numBlocks c)) emptyStats, lastProgressTime := t0,
      world := (w2, l)\<rparr>"
  have f2: "(forget c)\<lparr>writePassesRemaining := writePassesRemaining c - 1,
      blockStats := replicate (unat (numBlocks c)) emptyStats, lastProgressTime := t0,
      world := w2\<rparr> = forget c2"
    by (simp add: c2_def forget_def)
  have lhs: "writePass (logged sys) p c =
      (if fd < 0 then Inl (OpenForWritingFailed (filename c2))
       else bindE (forE 0 (numBlocks c2) (writeBlock (logged sys) fd p)
                     (c2, replicate (unat (blockSize c2)) p))
              (\<lambda>(c3, b). bindE (printPassStats (logged sys) False
                                   (c3\<lparr>world := sys_close (logged sys) fd (world c3)\<rparr>))
                 (\<lambda>c4. Inr (c4\<lparr>passIndex := passIndex c4 + 1\<rparr>))))"
    by (simp add: writePass_def logged_getTimeSec_eq logged_sys_open_eq w t opn c2_def Let_def)
  have rhs: "writePass sys p (forget c) =
      (if fd < 0 then Inl (OpenForWritingFailed (filename c2))
       else bindE (forE 0 (numBlocks c2) (writeBlock sys fd p)
                     (map_prod forget id (c2, replicate (unat (blockSize c2)) p)))
              (\<lambda>(c3, b). bindE (printPassStats sys False
                                   (c3\<lparr>world := sys_close sys fd (world c3)\<rparr>))
                 (\<lambda>c4. Inr (c4\<lparr>passIndex := passIndex c4 + 1\<rparr>))))"
    by (simp add: writePass_def forget_sel w t opn f2 Let_def)
  have "map_sum id forget
      (bindE (forE 0 (numBlocks c2) (writeBlock (logged sys) fd p)
                     (c2, replicate (unat (blockSize c2)) p))
              (\<lambda>(c3, b). bindE (printPassStats (logged sys) False
                                   (c3\<lparr>world := sys_close (logged sys) fd (world c3)\<rparr>))
                 (\<lambda>c4. Inr (c4\<lparr>passIndex := passIndex c4 + 1\<rparr>))))
    = bindE (forE 0 (numBlocks c2) (writeBlock sys fd p)
                     (map_prod forget id (c2, replicate (unat (blockSize c2)) p)))
              (\<lambda>(c3, b). bindE (printPassStats sys False
                                   (c3\<lparr>world := sys_close sys fd (world c3)\<rparr>))
                 (\<lambda>c4. Inr (c4\<lparr>passIndex := passIndex c4 + 1\<rparr>)))"
  proof (rule bindE_sim [where g = "map_prod forget id"])
    show "map_sum id (map_prod forget id)
        (forE 0 (numBlocks c2) (writeBlock (logged sys) fd p) (c2, replicate (unat (blockSize c2)) p))
      = forE 0 (numBlocks c2) (writeBlock sys fd p)
          (map_prod forget id (c2, replicate (unat (blockSize c2)) p))"
      by (rule forE_sim) (rule writeBlock_sim)
    show "map_sum id forget
        (case x of (c3, b) \<Rightarrow>
           bindE (printPassStats (logged sys) False (c3\<lparr>world := sys_close (logged sys) fd (world c3)\<rparr>))
             (\<lambda>c4. Inr (c4\<lparr>passIndex := passIndex c4 + 1\<rparr>)))
      = (case map_prod forget id x of (c3, b) \<Rightarrow>
           bindE (printPassStats sys False (c3\<lparr>world := sys_close sys fd (world c3)\<rparr>))
             (\<lambda>c4. Inr (c4\<lparr>passIndex := passIndex c4 + 1\<rparr>)))" for x
      by (cases x) (simp add: pass_end_sim)
  qed
  then show ?thesis
    by (simp only: lhs rhs) simp
qed

lemma readPass_sim:
  "map_sum id forget (readPass (logged sys) pattern c) = readPass sys pattern (forget c)"
proof -
  obtain w l where w: "world c = (w, l)"
    by (cases "world c")
  obtain t0 w1 where t: "getTimeSec sys w = (t0, w1)"
    by (cases "getTimeSec sys w")
  obtain fd w2 where opn: "sys_open sys (filename c) False w1 = (fd, w2)"
    by (cases "sys_open sys (filename c) False w1")
  define c2 where "c2 = c\<lparr>readPassesRemaining := readPassesRemaining c - 1,
      blockStats := replicate (unat (numBlocks c)) emptyStats, lastProgressTime := t0,
      world := (w2, l)\<rparr>"
  have f2: "(forget c)\<lparr>readPassesRemaining := readPassesRemaining c - 1,
      blockStats := replicate (unat (numBlocks c)) emptyStats, lastProgressTime := t0,
      world := w2\<rparr> = forget c2"
    by (simp add: c2_def forget_def)
  have lhs: "readPass (logged sys) pattern c =
      (if fd < 0 then Inl (OpenForReadingFailed (filename c2))
       else bindE (deref pattern) (\<lambda>pv.
            bindE (forE 0 (numBlocks c2) (readBlock (logged sys) fd pattern)
                     (c2, replicate (unat (blockSize c2)) 0, replicate (unat (blockSize c2)) pv))
              (\<lambda>(c3, b, x). bindE (printPassStats (logged sys) True
                                   (c3\<lparr>world := sys_close (logged sys) fd (world c3)\<rparr>))
                 (\<lambda>c4. Inr (c4\<lparr>passIndex := passIndex c4 + 1\<rparr>)))))"
    by (simp add: readPass_def logged_getTimeSec_eq logged_sys_open_eq w t opn c2_def Let_def)
  have rhs: "readPass sys pattern (forget c) =
      (if fd < 0 then Inl (OpenForReadingFailed (filename c2))
       else bindE (deref pattern) (\<lambda>pv.
            bindE (forE 0 (numBlocks c2) (readBlock sys fd pattern)
                     (map_prod forget id
                        (c2, replicate (unat (blockSize c2)) 0, replicate (unat (blockSize c2)) pv)))
              (\<lambda>(c3, b, x). bindE (printPassStats sys True
                                   (c3\<lparr>world := sys_close sys fd (world c3)\<rparr>))
                 (\<lambda>c4. Inr (c4\<lparr>passIndex := passIndex c4 + 1\<rparr>)))))"
    by (simp add: readPass_def forget_sel w t opn f2 Let_def)
  have "map_sum id forget
      (bindE (forE 0 (numBlocks c2) (readBlock (logged sys) fd pattern)
                     (c2, replicate (unat (blockSize c2)) 0, replicate (unat (blockSize c2)) pv))
              (\<lambda>(c3, b, x). bindE (printPassStats (logged sys) True
                                   (c3\<lparr>world := sys_close (logged sys) fd (world c3)\<rparr>))
                 (\<lambda>c4. Inr (c4\<lparr>passIndex := passIndex c4 + 1\<rparr>))))
    = bindE (forE 0 (numBlocks c2) (readBlock sys fd pattern)
                     (map_prod forget id
                        (c2, replicate (unat (blockSize c2)) 0, replicate (unat (blockSize c2)) pv)))
              (\<lambda>(c3, b, x). bindE (printPassStats sys True
                                   (c3\<lparr>world := sys_close sys fd (world c3)\<rparr>))
                 (\<lambda>c4. Inr (c4\<lparr>passIndex := passIndex c4 + 1\<rparr>)))" for pv
  proof (rule bindE_sim [where g = "map_prod forget id"])
    show "map_sum id (map_prod forget id)
        (forE 0 (numBlocks c2) (readBlock (logged sys) fd pattern)
           (c2, replicate (unat (blockSize c2)) 0, replicate (unat (blockSize c2)) pv))
      = forE 0 (numBlocks c2) (readBlock sys fd pattern)
          (map_prod forget id
             (c2, replicate (unat (blockSize c2)) 0, replicate (unat (blockSize c2)) pv))"
      by (rule forE_sim) (rule readBlock_sim)
    show "map_sum id forget
        (case x of (c3, b, x) \<Rightarrow>
           bindE (printPassStats (logged sys) True (c3\<lparr>world := sys_close (logged sys) fd (world c3)\<rparr>))
             (\<lambda>c4. Inr (c4\<lparr>passIndex := passIndex c4 + 1\<rparr>)))
      = (case map_prod forget id x of (c3, b, x) \<Rightarrow>
           bindE (printPassStats sys True (c3\<lparr>world := sys_close sys fd (world c3)\<rparr>))
             (\<lambda>c4. Inr (c4\<lparr>passIndex := passIndex c4 + 1\<rparr>)))" for x
      by (cases x) (simp add: pass_end_sim split_beta)
  qed
  note main = this
  show ?thesis
  proof (cases pattern)
    case None
    show ?thesis
      by (simp only: lhs rhs) (simp add: None deref_def bindE_def)
  next
    case (Some pv)
    have d: "bindE (deref pattern) f = f pv" for f :: "byte \<Rightarrow> error + 'x"
      by (simp add: Some deref_def bindE_def)
    from main [of pv] show ?thesis
      by (simp only: lhs rhs d) simp
  qed
qed

lemma observe_sel:
  "sizeBytes (observe c) = sizeBytes c" "blockSize (observe c) = blockSize c"
  "numBlocks (observe c) = numBlocks c" "callLog (observe c) = []"
  by (simp_all add: observe_def callLog_def)

lemma writePass_calls:
  assumes "writePass sys p c = Inr c'"
  shows "\<exists>rs. writeCalls sys p c = rs \<and> length rs = unat (numBlocks c)
    \<and> totalBytes (blockStats c') =
        sum_list (map (\<lambda>k. if 0 \<le> rs ! k
                            then unat (accessSize (sizeBytes c) (blockSize c) (of_nat k)) else 0)
                    [0..<unat (numBlocks c)])"
proof -
  from assms writePass_sim [of sys p "observe c"]
  have "map_sum id forget (writePass (logged sys) p (observe c)) = Inr c'"
    by (simp add: forget_observe)
  then obtain d where d: "writePass (logged sys) p (observe c) = Inr d" and c': "c' = forget d"
    by (cases "writePass (logged sys) p (observe c)") auto
  from writePass_logged [OF d] d c' show ?thesis
    by (simp add: observe_sel writeCalls_def forget_sel cong: if_cong)
qed

lemma readPass_calls:
  assumes "readPass sys pattern c = Inr c'"
  shows "\<exists>rs. readCalls sys pattern c = rs \<and> length rs = unat (numBlocks c)
    \<and> totalBytes (blockStats c') =
        sum_list (map (\<lambda>k. if 0 \<le> rs ! k
                            then unat (accessSize (sizeBytes c) (blockSize c) (of_nat k)) else 0)
                    [0..<unat (numBlocks c)])"
proof -
  from assms readPass_sim [of sys pattern "observe c"]
  have "map_sum id forget (readPass (logged sys) pattern (observe c)) = Inr c'"
    by (simp add: forget_observe)
  then obtain d where d: "readPass (logged sys) pattern (observe c) = Inr d" and c': "c' = forget d"
    by (cases "readPass (logged sys) pattern (observe c)") auto
  from readPass_logged [OF d] d c' show ?thesis
    by (simp add: observe_sel readCalls_def forget_sel cong: if_cong)
qed

subsection \<open>Pass executor: the bytes of a completed pass on any system\<close>

text \<open>
  Claim C2, as amended. For every completed pass (read or write) over a device with
  \<open>sizeBytes > 0\<close> and \<open>blockSize > 0\<close> (with \<open>sizeBytes + blockSize - 1\<close> within 64 bits and
  \<open>numBlocks\<close> as the constructor computes it) in which no \<^verbatim>\<open>read\<close> or \<^verbatim>\<open>write\<close> call of
  the pass returns a negative result, the bytes of all block records add up to
  \<open>sizeBytes\<close>, on any system. And passes complete: a write pass, and a read pass with a
  pattern, returns, having made one call per block, when the block size is at least 8,
  the progress line can be printed, the device can be opened and the per-block file can
  be created.
\<close>

theorem completed_pass_bytes:
  assumes sz: "0 < sizeBytes c" and bs: "0 < blockSize c"
    and nowrap: "unat (sizeBytes c) + unat (blockSize c) - 1 < 2 ^ 64"
    and nb: "calcNumBlocks (sizeBytes c) (blockSize c) = Inr (numBlocks c)"
  shows "(writePass sys p c = Inr c' \<and> (\<forall>r\<in>set (writeCalls sys p c). 0 \<le> r)
          \<longrightarrow> totalBytes (blockStats c') = unat (sizeBytes c))
       \<and> (readPass sys pattern c = Inr c'' \<and> (\<forall>r\<in>set (readCalls sys pattern c). 0 \<le> r)
          \<longrightarrow> totalBytes (blockStats c'') = unat (sizeBytes c))
       \<and> (8 \<le> unat (blockSize c) \<and> progressSafe c \<and> opens sys True c \<and> outfileOK sys False c
          \<longrightarrow> (\<exists>d. writePass sys p c = Inr d)
              \<and> length (writeCalls sys p c) = unat (numBlocks c))
       \<and> (8 \<le> unat (blockSize c) \<and> progressSafe c \<and> opens sys False c \<and> outfileOK sys True c
          \<longrightarrow> (\<exists>d. readPass sys (Some q) c = Inr d)
              \<and> length (readCalls sys (Some q) c) = unat (numBlocks c))"
proof (intro conjI impI)
  assume "writePass sys p c = Inr c' \<and> (\<forall>r\<in>set (writeCalls sys p c). 0 \<le> r)"
  then have run: "writePass sys p c = Inr c'"
    and ok: "\<forall>r\<in>set (drop (length ([] :: int list)) (writeCalls sys p c)). 0 \<le> r"
    by simp_all
  from writePass_calls [OF run] have log: "writeCalls sys p c = [] @ writeCalls sys p c"
    and len: "length (writeCalls sys p c) = unat (numBlocks c)"
    and t: "totalBytes (blockStats c') =
        sum_list (map (\<lambda>k. if 0 \<le> writeCalls sys p c ! k
                            then unat (accessSize (sizeBytes c) (blockSize c) (of_nat k)) else 0)
                    [0..<unat (numBlocks c)])"
    by simp_all
  from t show "totalBytes (blockStats c') = unat (sizeBytes c)"
    by (simp only: bytes_without_failure [OF sz bs nowrap nb log len ok])
next
  assume "readPass sys pattern c = Inr c'' \<and> (\<forall>r\<in>set (readCalls sys pattern c). 0 \<le> r)"
  then have run: "readPass sys pattern c = Inr c''"
    and ok: "\<forall>r\<in>set (drop (length ([] :: int list)) (readCalls sys pattern c)). 0 \<le> r"
    by simp_all
  from readPass_calls [OF run] have log: "readCalls sys pattern c = [] @ readCalls sys pattern c"
    and len: "length (readCalls sys pattern c) = unat (numBlocks c)"
    and t: "totalBytes (blockStats c'') =
        sum_list (map (\<lambda>k. if 0 \<le> readCalls sys pattern c ! k
                            then unat (accessSize (sizeBytes c) (blockSize c) (of_nat k)) else 0)
                    [0..<unat (numBlocks c)])"
    by simp_all
  from t show "totalBytes (blockStats c'') = unat (sizeBytes c)"
    by (simp only: bytes_without_failure [OF sz bs nowrap nb log len ok])
next
  assume "8 \<le> unat (blockSize c) \<and> progressSafe c \<and> opens sys True c \<and> outfileOK sys False c"
  then have h: "8 \<le> unat (blockSize c)" "progressSafe c" "opens sys True c" "outfileOK sys False c"
    by simp_all
  from writePass_total [OF numBlocks_pos [OF sz bs nowrap nb] h]
  obtain d where run: "writePass sys p c = Inr d"
    by blast
  then show "\<exists>d. writePass sys p c = Inr d"
    by blast
  from writePass_calls [OF run] show "length (writeCalls sys p c) = unat (numBlocks c)"
    by simp
next
  assume "8 \<le> unat (blockSize c) \<and> progressSafe c \<and> opens sys False c \<and> outfileOK sys True c"
  then have h: "8 \<le> unat (blockSize c)" "progressSafe c" "opens sys False c" "outfileOK sys True c"
    by simp_all
  from readPass_total [OF numBlocks_pos [OF sz bs nowrap nb] h]
  obtain d where run: "readPass sys (Some q) c = Inr d"
    by blast
  then show "\<exists>d. readPass sys (Some q) c = Inr d"
    by blast
  from readPass_calls [OF run] show "length (readCalls sys (Some q) c) = unat (numBlocks c)"
    by simp
qed

text \<open>
  A device of 24 bytes, in blocks of 8, whose calls would fail at the offset 1000, which no
  call of a pass reaches: both passes complete with the results 8, 8, 8 and record 24 bytes.
\<close>

theorem completed_pass_bytes_witness:
  "\<exists>c c' c''.
       newBlockChecker (simSys 0 8 [1000]) ''dev'' 8 [0x55] ''scanbadblocks'' (simDevice 24) = Inr c
     \<and> unat (sizeBytes c) = 24
     \<and> writePass (simSys 0 8 [1000]) 0x55 c = Inr c'
     \<and> writeCalls (simSys 0 8 [1000]) 0x55 c = [8, 8, 8]
     \<and> totalBytes (blockStats c') = 24
     \<and> readPass (simSys 0 8 [1000]) (Some 0x55) c = Inr c''
     \<and> readCalls (simSys 0 8 [1000]) (Some 0x55) c = [8, 8, 8]
     \<and> totalBytes (blockStats c'') = 24"
proof -
  define sys where "sys = simSys 0 8 [1000]"
  have "isl (newBlockChecker sys ''dev'' 8 [0x55] ''scanbadblocks'' (simDevice 24)) = False"
    unfolding sys_def by code_simp
  then obtain c where n: "newBlockChecker sys ''dev'' 8 [0x55] ''scanbadblocks'' (simDevice 24) = Inr c"
    by (cases "newBlockChecker sys ''dev'' 8 [0x55] ''scanbadblocks'' (simDevice 24)") simp_all
  note f = newBlockChecker_Inr [OF n]
  from f(1) have sz: "sizeBytes c = 24"
    by (simp add: sys_def simSys_def simDevice_def)
  have h: "0 < sizeBytes c" "0 < blockSize c" "unat (sizeBytes c) + unat (blockSize c) - 1 < 2 ^ 64"
    by (simp_all add: sz f(2))
  have pw: "8 \<le> unat (blockSize c) \<and> progressSafe c \<and> opens sys True c \<and> outfileOK sys False c"
    and pr: "8 \<le> unat (blockSize c) \<and> progressSafe c \<and> opens sys False c \<and> outfileOK sys True c"
    by (simp_all add: f progressSafe_def opens_def outfileOK_def sys_def simSys_def split_beta)
  note t = completed_pass_bytes [OF h f(5), where sys = sys and p = "0x55"
      and pattern = "Some 0x55" and q = "0x55"]
  from t [THEN conjunct2, THEN conjunct2, THEN conjunct1, rule_format, OF pw]
  obtain c' where w: "writePass sys 0x55 c = Inr c'"
    by blast
  from t [THEN conjunct2, THEN conjunct2, THEN conjunct2, rule_format, OF pr]
  obtain c'' where r: "readPass sys (Some 0x55) c = Inr c''"
    by blast
  have "bindE (newBlockChecker sys ''dev'' 8 [0x55] ''scanbadblocks'' (simDevice 24))
            (\<lambda>c. Inr (writeCalls sys 0x55 c)) = Inr [8, 8, 8]"
    unfolding sys_def by code_simp
  with n have lw: "writeCalls sys 0x55 c = [8, 8, 8]"
    by (simp add: bindE_def)
  have "bindE (newBlockChecker sys ''dev'' 8 [0x55] ''scanbadblocks'' (simDevice 24))
            (\<lambda>c. Inr (readCalls sys (Some 0x55) c)) = Inr [8, 8, 8]"
    unfolding sys_def by code_simp
  with n have lr: "readCalls sys (Some 0x55) c = [8, 8, 8]"
    by (simp add: bindE_def)
  note u = completed_pass_bytes [OF h f(5), where sys = sys and p = "0x55"
      and pattern = "Some 0x55" and c' = c' and c'' = c'']
  from u [THEN conjunct1] w lw have bw: "totalBytes (blockStats c') = 24"
    by (simp add: sz)
  from u [THEN conjunct2, THEN conjunct1] r lr have br: "totalBytes (blockStats c'') = 24"
    by (simp add: sz)
  from n sz w lw bw r lr br show ?thesis
    unfolding sys_def by (intro exI [of _ c] exI [of _ c'] exI [of _ c'']) simp
qed

text \<open>
  Claim C2 as stated fails for a pass with a failed call: a block whose call returns a
  negative result gets an error and no bytes (lines 109-113, 170-174). On a 24-byte
  device with 8-byte blocks whose writes fail at offset 8, the write pass completes with
  2 errors and 8 bytes recorded, not 24.
\<close>

theorem failed_block_bytes_missing:
  "passBytes (bindE (newBlockChecker (simSys 0 8 [8]) ''dev'' 8 [0x55] [] (simDevice 24))
                    (writePass (simSys 0 8 [8]) 0x55))
   = Inr (24, 8, 8, 2)"
  by code_simp

subsection \<open>Pass executor: the summary of a completed pass\<close>

lemma loop_frame:
  fixes g :: "'s \<Rightarrow> 'w BlockChecker"
  assumes run: "forE 0 n body s = Inr s'"
    and body: "\<And>j t t'. body j t = Inr t' \<Longrightarrow>
        numBlocks (g t') = numBlocks (g t)
        \<and> length (blockStats (g t')) = length (blockStats (g t))
        \<and> passSummaries (cout (g t')) = passSummaries (cout (g t))
        \<and> slowWarnings (cout (g t')) = slowWarnings (cout (g t))"
  shows "numBlocks (g s') = numBlocks (g s)
        \<and> length (blockStats (g s')) = length (blockStats (g s))
        \<and> passSummaries (cout (g s')) = passSummaries (cout (g s))
        \<and> slowWarnings (cout (g s')) = slowWarnings (cout (g s))"
proof -
  define I where "I j t \<longleftrightarrow> numBlocks (g t) = numBlocks (g s)
        \<and> length (blockStats (g t)) = length (blockStats (g s))
        \<and> passSummaries (cout (g t)) = passSummaries (cout (g s))
        \<and> slowWarnings (cout (g t)) = slowWarnings (cout (g s))" for j :: size_t and t
  have "I n s'"
  proof (rule forE_invariant [where I = I, OF run])
    show "0 \<le> n"
      by simp
    show "I 0 s"
      by (simp add: I_def)
    show "I (j + 1) t'" if "0 \<le> j" "j < n" "I j t" "body j t = Inr t'" for j t t'
      using body [OF that(4)] that(3) by (simp add: I_def)
  qed
  then show ?thesis
    by (simp add: I_def)
qed

text \<open>
  Every completed pass ends with the aggregator applied to the \<open>numBlocks\<close> records of
  the pass, so the two theorems on \<open>printPassStats\<close> above apply to it: the records are
  left sorted by rate, and the summary and the warnings of the pass are those of the
  sorted records. (A pass over \<open>numBlocks = 0\<close> does not complete: line 270 reads
  \<^verbatim>\<open>blockStats[0]\<close> of an empty vector.)
\<close>

lemma aggregated_pass:
  assumes len: "length (blockStats c3) = unat (numBlocks c3)"
    and pps: "printPassStats sys rd c3 = Inr c4"
  defines "n \<equiv> unat (numBlocks c3)" and "rate \<equiv> getRateMB (fp_round sys)"
  shows "0 < n" and "length (blockStats c4) = n" and "sorted (map rate (blockStats c4))"
    and "passSummaries (cout c4) = passSummaries (cout c3) @
         [(rate (blockStats c4 ! 0), rate (blockStats c4 ! (n div 2)), rate (blockStats c4 ! (n - 1)))]"
    and "slowWarnings (cout c4) = slowWarnings (cout c3) @
         slowLines (fp_round sys) [50, 20, 10, 5] (rate (blockStats c4 ! (n div 2)))
           (map rate (blockStats c4))"
proof -
  note r = printPassStats_Inr [OF pps len]
  from r(1) show pos: "0 < n"
    by (simp add: n_def)
  from r(2) len show l4: "length (blockStats c4) = n"
    by (simp add: n_def)
  from r(2) show "sorted (map rate (blockStats c4))"
    by (simp add: rate_def)
  have rates: "sort (map (getRateMB (fp_round sys)) (blockStats c3)) = map rate (blockStats c4)"
    unfolding rate_def by (simp only: r(2) rates_sort_key)
  have nth: "map rate (blockStats c4) ! k = rate (blockStats c4 ! k)" if "k < n" for k
    using that l4 by simp
  from pos have k: "0 < n" "n div 2 < n" "n - 1 < n"
    by simp_all
  from r(4) show "passSummaries (cout c4) = passSummaries (cout c3) @
         [(rate (blockStats c4 ! 0), rate (blockStats c4 ! (n div 2)), rate (blockStats c4 ! (n - 1)))]"
    unfolding rates n_def [symmetric] by (simp only: nth [OF k(1)] nth [OF k(2)] nth [OF k(3)])
  from r(5) show "slowWarnings (cout c4) = slowWarnings (cout c3) @
         slowLines (fp_round sys) [50, 20, 10, 5] (rate (blockStats c4 ! (n div 2)))
           (map rate (blockStats c4))"
    unfolding rates n_def [symmetric] by (simp only: nth [OF k(2)])
qed

lemma completed_pass_summary:
  assumes "writePass sys p c = Inr c' \<or> readPass sys pattern c = Inr c'"
  defines "n \<equiv> unat (numBlocks c)" and "rate \<equiv> getRateMB (fp_round sys)"
  shows "0 < n" and "length (blockStats c') = n" and "sorted (map rate (blockStats c'))"
    and "passSummaries (cout c') = passSummaries (cout c) @
         [(rate (blockStats c' ! 0), rate (blockStats c' ! (n div 2)), rate (blockStats c' ! (n - 1)))]"
    and "slowWarnings (cout c') = slowWarnings (cout c) @
         slowLines (fp_round sys) [50, 20, 10, 5] (rate (blockStats c' ! (n div 2)))
           (map rate (blockStats c'))"
proof -
  have wf: "numBlocks (fst t') = numBlocks (fst t)
        \<and> length (blockStats (fst t')) = length (blockStats (fst t))
        \<and> passSummaries (cout (fst t')) = passSummaries (cout (fst t))
        \<and> slowWarnings (cout (fst t')) = slowWarnings (cout (fst t))"
    if "writeBlock sys fd p j t = Inr t'" for fd j t t'
  proof -
    obtain tc tb where t: "t = (tc, tb)" by (cases t)
    obtain tc' tb' where t': "t' = (tc', tb')" by (cases t')
    from writeBlock_frame [OF that [unfolded t t']] show ?thesis
      by (simp add: t t' sameSetup_def)
  qed
  have rf: "numBlocks (fst t') = numBlocks (fst t)
        \<and> length (blockStats (fst t')) = length (blockStats (fst t))
        \<and> passSummaries (cout (fst t')) = passSummaries (cout (fst t))
        \<and> slowWarnings (cout (fst t')) = slowWarnings (cout (fst t))"
    if "readBlock sys fd pattern j t = Inr t'" for fd j t t'
  proof -
    obtain tc tb tx where t: "t = (tc, tb, tx)" by (cases t)
    obtain tc' tb' tx' where t': "t' = (tc', tb', tx')" by (cases t')
    from readBlock_frame [OF that [unfolded t t']] show ?thesis
      by (simp add: t t' sameSetup_def)
  qed
  have "\<exists>c3 c4 rd. numBlocks c3 = numBlocks c \<and> length (blockStats c3) = unat (numBlocks c)
      \<and> passSummaries (cout c3) = passSummaries (cout c)
      \<and> slowWarnings (cout c3) = slowWarnings (cout c)
      \<and> printPassStats sys rd c3 = Inr c4 \<and> c' = c4\<lparr>passIndex := passIndex c4 + 1\<rparr>"
    using assms(1)
  proof
    assume "writePass sys p c = Inr c'"
    from writePass_Inr [OF this] obtain c2 fd buf c3 b c4 where
      c2: "sameSetup c c2" "blockStats c2 = replicate (unat (numBlocks c)) emptyStats"
        "cout c2 = cout c"
      and run: "forE 0 (numBlocks c2) (writeBlock sys fd p) (c2, buf) = Inr (c3, b)"
      and pps: "printPassStats sys False (c3\<lparr>world := sys_close sys fd (world c3)\<rparr>) = Inr c4"
      and c': "c' = c4\<lparr>passIndex := passIndex c4 + 1\<rparr>"
      by blast
    define w where "w = sys_close sys fd (world c3)"
    from loop_frame [where g = fst, OF run wf] c2
    have "numBlocks (c3\<lparr>world := w\<rparr>) = numBlocks c"
      "length (blockStats (c3\<lparr>world := w\<rparr>)) = unat (numBlocks c)"
      "passSummaries (cout (c3\<lparr>world := w\<rparr>)) = passSummaries (cout c)"
      "slowWarnings (cout (c3\<lparr>world := w\<rparr>)) = slowWarnings (cout c)"
      by (simp_all add: sameSetup_def)
    with pps c' show ?thesis
      unfolding w_def by blast
  next
    assume "readPass sys pattern c = Inr c'"
    from readPass_Inr [OF this] obtain c2 fd buf ex c3 b x c4 where
      c2: "sameSetup c c2" "blockStats c2 = replicate (unat (numBlocks c)) emptyStats"
        "cout c2 = cout c"
      and run: "forE 0 (numBlocks c2) (readBlock sys fd pattern) (c2, buf, ex) = Inr (c3, b, x)"
      and pps: "printPassStats sys True (c3\<lparr>world := sys_close sys fd (world c3)\<rparr>) = Inr c4"
      and c': "c' = c4\<lparr>passIndex := passIndex c4 + 1\<rparr>"
      by blast
    define w where "w = sys_close sys fd (world c3)"
    from loop_frame [where g = fst, OF run rf] c2
    have "numBlocks (c3\<lparr>world := w\<rparr>) = numBlocks c"
      "length (blockStats (c3\<lparr>world := w\<rparr>)) = unat (numBlocks c)"
      "passSummaries (cout (c3\<lparr>world := w\<rparr>)) = passSummaries (cout c)"
      "slowWarnings (cout (c3\<lparr>world := w\<rparr>)) = slowWarnings (cout c)"
      by (simp_all add: sameSetup_def)
    with pps c' show ?thesis
      unfolding w_def by blast
  qed
  then obtain c3 c4 rd where c3: "numBlocks c3 = numBlocks c" "length (blockStats c3) = unat (numBlocks c)"
      "passSummaries (cout c3) = passSummaries (cout c)" "slowWarnings (cout c3) = slowWarnings (cout c)"
    and pps: "printPassStats sys rd c3 = Inr c4" and c': "c' = c4\<lparr>passIndex := passIndex c4 + 1\<rparr>"
    by blast
  from c3 have len: "length (blockStats c3) = unat (numBlocks c3)"
    by simp
  note a = aggregated_pass [OF len pps, unfolded c3]
  from a(1) show "0 < n"
    by (simp add: n_def)
  from a(2) show "length (blockStats c') = n"
    by (simp add: n_def c')
  from a(3) show "sorted (map rate (blockStats c'))"
    by (simp add: c' rate_def)
  from a(4) show "passSummaries (cout c') = passSummaries (cout c) @
         [(rate (blockStats c' ! 0), rate (blockStats c' ! (n div 2)), rate (blockStats c' ! (n - 1)))]"
    by (simp add: n_def c' rate_def)
  from a(5) show "slowWarnings (cout c') = slowWarnings (cout c) @
         slowLines (fp_round sys) [50, 20, 10, 5] (rate (blockStats c' ! (n div 2)))
           (map rate (blockStats c'))"
    by (simp add: n_def c' rate_def)
qed

end
